theory Spec2Isabelle
  imports Complex_Main "HOL-Library.AList"
begin

section \<open>JavaScript values\<close>

text \<open>
  A JavaScript number is a double: \<open>NaN\<close>, one of the two infinities, or a finite double,
  which is kept as the rational it is exactly. Every operation that makes a number rounds
  its exact result to a double (\<open>roundDouble\<close> below). The two zeros, which \<open>===\<close> does
  not tell apart, are one value. Strings are lists of code units below 256.
\<close>

datatype jsnum = NaN | PosInfinity | NegInfinity | Finite rat

datatype jsval = JNum jsnum | JBool bool | JStr string

text \<open>The instant read by \<open>new Date()\<close>, in milliseconds; \<open>toISOString\<close> is its text.\<close>

type_synonym instant = nat

section \<open>Property lookup on a plain object\<close>

text \<open>
  \<open>addressSpace\<close>, every \<open>children\<close> and \<open>subscriptions\<close> are object literals, so
  \<open>obj[key]\<close> finds the object's own property first and the members of
  \<open>Object.prototype\<close> after that. Each inherited member is a function (or, for
  \<open>__proto__\<close>, the prototype object), hence truthy, and has no \<open>nodeClass\<close> and no
  \<open>children\<close>. An object is the list of its own properties in insertion order.
\<close>

datatype 'a member = Own 'a | Inherited | Undefined

definition objectPrototypeKeys :: "string list" where
  "objectPrototypeKeys =
     [''constructor'', ''__proto__'', ''hasOwnProperty'', ''isPrototypeOf'',
      ''propertyIsEnumerable'', ''toLocaleString'', ''toString'', ''valueOf'',
      ''__defineGetter__'', ''__defineSetter__'', ''__lookupGetter__'', ''__lookupSetter__'']"

definition getMember :: "(string \<times> 'a) list \<Rightarrow> string \<Rightarrow> 'a member" where
  "getMember obj key =
     (case map_of obj key of
        Some v \<Rightarrow> Own v
      | None \<Rightarrow> if key \<in> set objectPrototypeKeys then Inherited else Undefined)"

section \<open>The address space\<close>

text \<open>
  A node is an object literal; a field the literal does not have reads as \<open>undefined\<close>,
  which is \<open>None\<close> here. \<open>nodeValue\<close> is the field \<open>value\<close>.
\<close>

datatype node = Node
  (browseName: string)
  (nodeId: string)
  (nodeClass: string)
  (children: "(string \<times> node) list option")
  (dataType: "string option")
  (nodeValue: "jsval option")
  (accessLevel: "string option")
  (timestamp: "instant option")

type_synonym space = "(string \<times> node) list"

text \<open>What \<open>findNode\<close> returns: a node, an inherited member of the root object, or \<open>null\<close>.\<close>

datatype found = FoundNode node | FoundInherited | Null

text \<open>
  \<open>findNode\<close> looks the key up in the current object and otherwise walks its properties in
  order, descending into every truthy \<open>children\<close>; \<open>findLoop\<close> is the \<open>for ... in\<close> loop.
  An inherited member can only be met at the root: below it the same key was already
  tried on an object with the same prototype.
\<close>

fun findNode :: "string \<Rightarrow> space \<Rightarrow> found"
  and findLoop :: "string \<Rightarrow> space \<Rightarrow> found" where
  "findNode key currentSpace =
     (case getMember currentSpace key of
        Own n \<Rightarrow> FoundNode n
      | Inherited \<Rightarrow> FoundInherited
      | Undefined \<Rightarrow> findLoop key currentSpace)"
| "findLoop key [] = Null"
| "findLoop key ((k, Node bn nid nc None dt v al ts) # rest) = findLoop key rest"
| "findLoop key ((k, Node bn nid nc (Some ch) dt v al ts) # rest) =
     (case findNode key ch of
        Null \<Rightarrow> findLoop key rest
      | r \<Rightarrow> r)"

section \<open>Built-in functions the server calls\<close>

subsection \<open>The Number value of a rational, and arithmetic\<close>

text \<open>
  The double nearest to a rational, as IEEE 754 binary64 rounds to nearest with ties to
  even. \<open>binade a\<close> is the exponent \<open>e\<close> of the doubles around \<open>a\<close>: from \<open>-1022\<close>, which
  the subnormal numbers share, to \<open>1023\<close>, with \<open>2^e \<le> a < 2^(e+1)\<close> in between. The
  doubles there are the multiples of \<open>2^(e-52)\<close>, and the nearest multiple is taken, the
  even one of two equally near. A result of \<open>2^1024\<close> or more is an infinity.
\<close>

definition binade :: "rat \<Rightarrow> int" where
  "binade a = Max (insert (- 1022) {e \<in> {- 1022 .. 1023}. 2 powi e \<le> a})"

definition roundHalfEven :: "rat \<Rightarrow> int" where
  "roundHalfEven x =
     (let f = \<lfloor>x\<rfloor>; r = x - of_int f
      in if r < 1 / 2 then f else if 1 / 2 < r then f + 1 else if even f then f else f + 1)"

definition roundDouble :: "rat \<Rightarrow> jsnum" where
  "roundDouble q =
     (let a = \<bar>q\<bar>;
          u = 2 powi (binade a - 52);
          c = of_int (roundHalfEven (a / u)) * u
      in if 2 powi 1024 \<le> c then (if q < 0 then NegInfinity else PosInfinity)
         else Finite (if q < 0 then - c else c))"

text \<open>The operators \<open>*\<close> and \<open>+\<close> on two numbers.\<close>

fun numberMultiply :: "jsnum \<Rightarrow> jsnum \<Rightarrow> jsnum" where
  "numberMultiply NaN y = NaN"
| "numberMultiply x NaN = NaN"
| "numberMultiply (Finite x) (Finite y) = roundDouble (x * y)"
| "numberMultiply (Finite x) PosInfinity =
     (if x = 0 then NaN else if 0 < x then PosInfinity else NegInfinity)"
| "numberMultiply (Finite x) NegInfinity =
     (if x = 0 then NaN else if 0 < x then NegInfinity else PosInfinity)"
| "numberMultiply PosInfinity (Finite y) =
     (if y = 0 then NaN else if 0 < y then PosInfinity else NegInfinity)"
| "numberMultiply NegInfinity (Finite y) =
     (if y = 0 then NaN else if 0 < y then NegInfinity else PosInfinity)"
| "numberMultiply PosInfinity PosInfinity = PosInfinity"
| "numberMultiply PosInfinity NegInfinity = NegInfinity"
| "numberMultiply NegInfinity PosInfinity = NegInfinity"
| "numberMultiply NegInfinity NegInfinity = PosInfinity"

fun numberAdd :: "jsnum \<Rightarrow> jsnum \<Rightarrow> jsnum" where
  "numberAdd NaN y = NaN"
| "numberAdd x NaN = NaN"
| "numberAdd (Finite x) (Finite y) = roundDouble (x + y)"
| "numberAdd PosInfinity NegInfinity = NaN"
| "numberAdd NegInfinity PosInfinity = NaN"
| "numberAdd PosInfinity y = PosInfinity"
| "numberAdd NegInfinity y = NegInfinity"
| "numberAdd (Finite x) y = y"

subsection \<open>\<open>parseFloat\<close>\<close>

text \<open>
  \<open>parseFloat\<close> drops leading white space and takes the longest prefix that is a
  \<open>StrDecimalLiteral\<close>: an optional sign, then \<open>Infinity\<close>, or digits with an optional
  fraction and exponent, or a fraction that starts with the point. No such prefix gives
  \<open>NaN\<close>. The result is the double nearest to the number the digits denote, which
  engines give for a literal of any length and the standard asks for up to 20 significant
  digits.
\<close>

definition isStrWhiteSpaceChar :: "char \<Rightarrow> bool" where
  "isStrWhiteSpaceChar c \<longleftrightarrow> (of_char c :: nat) \<in> {9, 10, 11, 12, 13, 32, 160}"

definition isDecimalDigit :: "char \<Rightarrow> bool" where
  "isDecimalDigit c \<longleftrightarrow> 48 \<le> (of_char c :: nat) \<and> (of_char c :: nat) \<le> 57"

definition digitValue :: "char \<Rightarrow> nat" where
  "digitValue c = of_char c - 48"

definition digitsValue :: "string \<Rightarrow> nat" where
  "digitsValue ds = foldl (\<lambda>a c. 10 * a + digitValue c) 0 ds"

definition scale :: "rat \<Rightarrow> int \<Rightarrow> rat" where
  "scale m e = (if 0 \<le> e then m * 10 ^ nat e else m / 10 ^ nat (- e))"

text \<open>The exponent an \<open>ExponentPart\<close> at the head of the text denotes, and 0 without one.\<close>

definition exponentValue :: "string \<Rightarrow> int" where
  "exponentValue r =
     (case r of
        [] \<Rightarrow> 0
      | c # r1 \<Rightarrow>
          if c = CHR ''e'' \<or> c = CHR ''E'' then
            (case r1 of
               [] \<Rightarrow> 0
             | d # r2 \<Rightarrow>
                 if d = CHR ''+'' then int (digitsValue (takeWhile isDecimalDigit r2))
                 else if d = CHR ''-'' then - int (digitsValue (takeWhile isDecimalDigit r2))
                 else int (digitsValue (takeWhile isDecimalDigit r1)))
          else 0)"

definition parseUnsigned :: "string \<Rightarrow> jsnum" where
  "parseUnsigned t =
     (if take 8 t = ''Infinity'' then PosInfinity
      else
        let ip = takeWhile isDecimalDigit t;
            r1 = dropWhile isDecimalDigit t;
            pointed = (r1 \<noteq> [] \<and> hd r1 = CHR ''.'');
            fp = (if pointed then takeWhile isDecimalDigit (tl r1) else []);
            r2 = (if pointed then dropWhile isDecimalDigit (tl r1) else r1)
        in if ip = [] \<and> fp = [] then NaN
           else roundDouble (scale (of_nat (digitsValue (ip @ fp)) / 10 ^ length fp)
                               (exponentValue r2)))"

fun negate :: "jsnum \<Rightarrow> jsnum" where
  "negate NaN = NaN"
| "negate PosInfinity = NegInfinity"
| "negate NegInfinity = PosInfinity"
| "negate (Finite q) = Finite (- q)"

definition parseFloat :: "string \<Rightarrow> jsnum" where
  "parseFloat s =
     (case dropWhile isStrWhiteSpaceChar s of
        [] \<Rightarrow> NaN
      | c # u \<Rightarrow>
          if c = CHR ''-'' then negate (parseUnsigned u)
          else if c = CHR ''+'' then parseUnsigned u
          else parseUnsigned (c # u))"

subsection \<open>\<open>String.prototype.toLowerCase\<close>\<close>

text \<open>On code units below 256: A to Z, and the Latin-1 capitals but the multiplication sign.\<close>

definition lowerChar :: "char \<Rightarrow> char" where
  "lowerChar c =
     (let n = (of_char c :: nat)
      in if (65 \<le> n \<and> n \<le> 90) \<or> (192 \<le> n \<and> n \<le> 222 \<and> n \<noteq> 215)
         then char_of (n + 32) else c)"

definition toLowerCase :: "string \<Rightarrow> string" where
  "toLowerCase s = map lowerChar s"

subsection \<open>\<open>Number.prototype.toFixed\<close>\<close>

fun digitsOf :: "nat \<Rightarrow> string" where
  "digitsOf n =
     (if n < 10 then [char_of (48 + n)]
      else digitsOf (n div 10) @ [char_of (48 + n mod 10)])"

declare digitsOf.simps [simp del]

text \<open>
  \<open>toFixed f\<close> of a finite number below \<open>10^21\<close> in absolute value: the integer \<open>n\<close> with
  \<open>n / 10^f\<close> nearest to the exact value of the double (the larger one on a tie), written
  with \<open>f\<close> digits after the point. The exponent notation of larger numbers is not
  modelled. A number that is not finite gives its name.
\<close>

definition toFixed :: "nat \<Rightarrow> rat \<Rightarrow> string" where
  "toFixed f x =
     (let s = (if x < 0 then ''-'' else []);
          n = nat \<lfloor>\<bar>x\<bar> * 10 ^ f + 1 / 2\<rfloor>;
          m = digitsOf n;
          z = (if length m \<le> f then replicate (f + 1 - length m) (CHR ''0'') @ m else m);
          k = length z
      in if f = 0 then s @ m else s @ take (k - f) z @ ''.'' @ drop (k - f) z)"

fun numberToFixed :: "nat \<Rightarrow> jsnum \<Rightarrow> string" where
  "numberToFixed f NaN = ''NaN''"
| "numberToFixed f PosInfinity = ''Infinity''"
| "numberToFixed f NegInfinity = ''-Infinity''"
| "numberToFixed f (Finite x) = toFixed f x"

section \<open>The simulated server\<close>

text \<open>
  The three fields of \<open>SimulatedOpcUaServer\<close>, and what the page around it holds: the
  interval timers that run the simulation tick, the number of timer handles issued so far
  (\<open>setInterval\<close> returns the next positive integer), and the calls made to subscription
  callbacks, oldest first. A callback is an opaque function handle: calling it is recorded,
  and it is taken not to call back into the server, as the one of the page does not.
\<close>

record 'cb server =
  addressSpace :: space
  subscriptions :: "(string \<times> 'cb) list"
  updateInterval :: "nat option"
  timers :: "nat list"
  issued :: nat
  delivered :: "('cb \<times> jsval \<times> instant) list"

text \<open>
  The constructor; \<open>t1\<close> to \<open>t4\<close> are the four readings of \<open>getUtcTimestamp\<close>. The literal
  \<open>25.5\<close> is a double, and the literal \<open>101.2\<close> is the double nearest to it.
\<close>

definition constructedSpace :: "instant \<Rightarrow> instant \<Rightarrow> instant \<Rightarrow> instant \<Rightarrow> space" where
  "constructedSpace t1 t2 t3 t4 =
     [(''ns=0;i=84'', Node ''Objects'' ''ns=0;i=84'' ''Object''
        (Some [(''ns=1;s=Folder1'', Node ''MyDevices'' ''ns=1;s=Folder1'' ''Object''
           (Some
             [(''ns=1;s=Temperature'', Node ''Temperature'' ''ns=1;s=Temperature'' ''Variable''
                 None (Some ''Float'') (Some (JNum (Finite (51 / 2)))) (Some ''ReadWrite'') (Some t1)),
              (''ns=1;s=Pressure'', Node ''Pressure'' ''ns=1;s=Pressure'' ''Variable''
                 None (Some ''Float'') (Some (JNum (roundDouble (506 / 5)))) (Some ''ReadWrite'') (Some t2)),
              (''ns=1;s=Status'', Node ''Status'' ''ns=1;s=Status'' ''Variable''
                 None (Some ''Boolean'') (Some (JBool True)) (Some ''ReadOnly'') (Some t3)),
              (''ns=1;s=DeviceName'', Node ''DeviceName'' ''ns=1;s=DeviceName'' ''Variable''
                 None (Some ''String'') (Some (JStr ''SensorUnit-A'')) (Some ''ReadOnly'') (Some t4))])
           None None None None)])
        None None None None)]"

definition constructor :: "instant \<Rightarrow> instant \<Rightarrow> instant \<Rightarrow> instant \<Rightarrow> 'cb server" where
  "constructor t1 t2 t3 t4 =
     \<lparr>addressSpace = constructedSpace t1 t2 t3 t4, subscriptions = [], updateInterval = None,
      timers = [], issued = 0, delivered = []\<rparr>"

subsection \<open>Assignment to the node \<open>findNode\<close> returned\<close>

text \<open>
  \<open>findNode\<close> returns a reference, and \<open>node.value = ...\<close> changes the node in the tree.
  \<open>assignNode key f\<close> follows the path of \<open>findNode key\<close> and applies \<open>f\<close> to the node at
  its end; \<open>assignLoop\<close> is the path through the loop.
\<close>

fun setValue :: "jsval \<Rightarrow> instant \<Rightarrow> node \<Rightarrow> node" where
  "setValue v t (Node bn nid nc ch dt old al ts) = Node bn nid nc ch dt (Some v) al (Some t)"

fun assignNode :: "string \<Rightarrow> (node \<Rightarrow> node) \<Rightarrow> space \<Rightarrow> space"
  and assignLoop :: "string \<Rightarrow> (node \<Rightarrow> node) \<Rightarrow> space \<Rightarrow> space" where
  "assignNode key f currentSpace =
     (case getMember currentSpace key of
        Own n \<Rightarrow> AList.update key (f n) currentSpace
      | Inherited \<Rightarrow> currentSpace
      | Undefined \<Rightarrow> assignLoop key f currentSpace)"
| "assignLoop key f [] = []"
| "assignLoop key f ((k, Node bn nid nc None dt v al ts) # rest) =
     (k, Node bn nid nc None dt v al ts) # assignLoop key f rest"
| "assignLoop key f ((k, Node bn nid nc (Some ch) dt v al ts) # rest) =
     (case findNode key ch of
        Null \<Rightarrow> (k, Node bn nid nc (Some ch) dt v al ts) # assignLoop key f rest
      | r \<Rightarrow> (k, Node bn nid nc (Some (assignNode key f ch)) dt v al ts) # rest)"

subsection \<open>Results\<close>

text \<open>
  A message is kept as its template and the values put into it: the text of a number is
  not modelled.
\<close>

datatype message =
    NotFoundOrNotVariable string
  | IsReadOnly string
  | ErrorForType string "string option"
  | ValueUpdated string jsval
  | Subscribed string
  | CannotSubscribe string
  | Unsubscribed string
  | NoActiveSubscription string

record result =
  success :: bool
  message :: message
  resTimestamp :: "instant option"
  resDataType :: "string option"

definition failure :: "message \<Rightarrow> result" where
  "failure m = \<lparr>success = False, message = m, resTimestamp = None, resDataType = None\<rparr>"

record readResult =
  readValue :: "jsval option"
  readDataType :: "string option"
  readAccessLevel :: "string option"
  readTimestamp :: "instant option"

record summary =
  sumNodeId :: string
  sumBrowseName :: string
  sumNodeClass :: string
  sumDataType :: "string option"
  hasChildren :: bool
  sumValue :: "jsval option"
  sumTimestamp :: "instant option"

text \<open>A call either returns or throws a \<open>TypeError\<close>.\<close>

datatype 'a completion = Returned 'a | Threw

subsection \<open>\<open>readNode\<close>\<close>

definition readNode :: "'cb server \<Rightarrow> string \<Rightarrow> readResult option \<times> 'cb server" where
  "readNode srv key =
     (case findNode key (addressSpace srv) of
        FoundNode node \<Rightarrow>
          if nodeClass node = ''Variable'' then
            (Some \<lparr>readValue = nodeValue node, readDataType = dataType node,
                    readAccessLevel = accessLevel node, readTimestamp = timestamp node\<rparr>, srv)
          else (None, srv)
      | FoundInherited \<Rightarrow> (None, srv)
      | Null \<Rightarrow> (None, srv))"

subsection \<open>\<open>writeNode\<close>\<close>

text \<open>The \<open>switch\<close> inside \<open>try\<close>: \<open>Inl\<close> is the message of the error thrown.\<close>

definition convert :: "string option \<Rightarrow> string \<Rightarrow> string + jsval" where
  "convert dt newValue =
     (if dt = Some ''Float'' then
        (let convertedValue = parseFloat newValue
         in if convertedValue = NaN then Inl ''Invalid float value.''
            else Inr (JNum convertedValue))
      else if dt = Some ''Boolean'' then
        Inr (JBool (toLowerCase newValue = ''true'' \<or> newValue = ''1''))
      else if dt = Some ''String'' then Inr (JStr newValue)
      else Inr (JStr newValue))"

text \<open>
  Calling an inherited member instead of a callback: \<open>__proto__\<close> is not a function, and
  \<open>__defineGetter__\<close> and \<open>__defineSetter__\<close> reject a second argument that is a string;
  the other members return and change nothing.
\<close>

definition inheritedCallThrows :: "string \<Rightarrow> bool" where
  "inheritedCallThrows key \<longleftrightarrow>
     key \<in> {''__proto__'', ''__defineGetter__'', ''__defineSetter__''}"

definition writeNode ::
  "'cb server \<Rightarrow> string \<Rightarrow> string \<Rightarrow> instant \<Rightarrow> result completion \<times> 'cb server" where
  "writeNode srv key newValue now =
     (case findNode key (addressSpace srv) of
        FoundNode node \<Rightarrow>
          if nodeClass node \<noteq> ''Variable'' then
            (Returned (failure (NotFoundOrNotVariable key)), srv)
          else if accessLevel node \<noteq> Some ''ReadWrite'' then
            (Returned (failure (IsReadOnly (browseName node))), srv)
          else
            (case convert (dataType node) newValue of
               Inl e \<Rightarrow> (Returned (failure (ErrorForType e (dataType node))), srv)
             | Inr convertedValue \<Rightarrow>
                 let srv1 = srv\<lparr>addressSpace :=
                              assignNode key (setValue convertedValue now) (addressSpace srv)\<rparr>;
                     ok = \<lparr>success = True,
                             message = ValueUpdated (browseName node) convertedValue,
                             resTimestamp = Some now, resDataType = dataType node\<rparr>
                 in (case getMember (subscriptions srv1) key of
                       Own callback \<Rightarrow>
                         (Returned ok,
                          srv1\<lparr>delivered := delivered srv1 @ [(callback, convertedValue, now)]\<rparr>)
                     | Inherited \<Rightarrow>
                         (if inheritedCallThrows key then Threw else Returned ok, srv1)
                     | Undefined \<Rightarrow> (Returned ok, srv1)))
      | FoundInherited \<Rightarrow> (Returned (failure (NotFoundOrNotVariable key)), srv)
      | Null \<Rightarrow> (Returned (failure (NotFoundOrNotVariable key)), srv))"

subsection \<open>\<open>browseNodes\<close>\<close>

definition summarise :: "node \<Rightarrow> summary" where
  "summarise node =
     \<lparr>sumNodeId = nodeId node, sumBrowseName = browseName node, sumNodeClass = nodeClass node,
      sumDataType = dataType node,
      hasChildren = (case children node of None \<Rightarrow> False | Some ch \<Rightarrow> 0 < length ch),
      sumValue = nodeValue node, sumTimestamp = timestamp node\<rparr>"

text \<open>\<open>None\<close> is the call without an argument, which takes the default parent.\<close>

definition browseNodes :: "'cb server \<Rightarrow> string option \<Rightarrow> summary list \<times> 'cb server" where
  "browseNodes srv parentNodeId =
     (case findNode (case parentNodeId of None \<Rightarrow> ''ns=0;i=84'' | Some key \<Rightarrow> key)
             (addressSpace srv) of
        FoundNode parentNode \<Rightarrow>
          (case children parentNode of
             Some ch \<Rightarrow> (map (\<lambda>(k, node). summarise node) ch, srv)
           | None \<Rightarrow> ([], srv))
      | FoundInherited \<Rightarrow> ([], srv)
      | Null \<Rightarrow> ([], srv))"

subsection \<open>\<open>subscribe\<close> and \<open>unsubscribe\<close>\<close>

text \<open>
  The assignment \<open>subscriptions[nodeId] = callback\<close> creates or overwrites an own property
  for every key but \<open>__proto__\<close>; \<open>delete\<close> removes an own property and succeeds without one.
\<close>

definition subscribe :: "'cb server \<Rightarrow> string \<Rightarrow> 'cb \<Rightarrow> result \<times> 'cb server" where
  "subscribe srv key callback =
     (case findNode key (addressSpace srv) of
        FoundNode node \<Rightarrow>
          if nodeClass node = ''Variable'' then
            (\<lparr>success = True, message = Subscribed (browseName node),
              resTimestamp = None, resDataType = None\<rparr>,
             srv\<lparr>subscriptions := AList.update key callback (subscriptions srv)\<rparr>)
          else (failure (CannotSubscribe key), srv)
      | FoundInherited \<Rightarrow> (failure (CannotSubscribe key), srv)
      | Null \<Rightarrow> (failure (CannotSubscribe key), srv))"

definition unsubscribe :: "'cb server \<Rightarrow> string \<Rightarrow> result \<times> 'cb server" where
  "unsubscribe srv key =
     (case getMember (subscriptions srv) key of
        Undefined \<Rightarrow> (failure (NoActiveSubscription key), srv)
      | present \<Rightarrow>
          (\<lparr>success = True, message = Unsubscribed key, resTimestamp = None, resDataType = None\<rparr>,
           srv\<lparr>subscriptions := AList.delete key (subscriptions srv)\<rparr>))"

subsection \<open>The simulation clock\<close>

text \<open>
  What one tick reads from outside: the two results of \<open>Math.random\<close>, each a double, and
  the two readings of the wall clock.
\<close>

record draw =
  tempRandom :: rat
  tempNow :: instant
  pressureRandom :: rat
  pressureNow :: instant

text \<open>
  The block the tick runs for each of its two node ids, neither of which is a member of
  \<open>Object.prototype\<close>. Whatever \<open>findNode\<close> returns that is not \<open>null\<close> is assigned to.
\<close>

definition simulate :: "string \<Rightarrow> jsval \<Rightarrow> instant \<Rightarrow> 'cb server \<Rightarrow> 'cb server" where
  "simulate key v now srv =
     (case findNode key (addressSpace srv) of
        Null \<Rightarrow> srv
      | present \<Rightarrow>
          let srv1 = srv\<lparr>addressSpace := assignNode key (setValue v now) (addressSpace srv)\<rparr>
          in (case getMember (subscriptions srv1) key of
                Own callback \<Rightarrow> srv1\<lparr>delivered := delivered srv1 @ [(callback, v, now)]\<rparr>
              | Inherited \<Rightarrow> srv1
              | Undefined \<Rightarrow> srv1))"

text \<open>
  The expression \<open>Math.random() * a + b\<close>, with \<open>r\<close> the result of \<open>Math.random\<close>: the
  product is rounded to a double, and then the sum is.
\<close>

definition sample :: "rat \<Rightarrow> rat \<Rightarrow> rat \<Rightarrow> jsnum" where
  "sample r a b = numberAdd (numberMultiply (Finite r) (Finite a)) (Finite b)"

text \<open>The timer's function, without the two calls that redraw the page.\<close>

definition tick :: "'cb server \<Rightarrow> draw \<Rightarrow> 'cb server" where
  "tick srv d =
     simulate ''ns=1;s=Pressure''
       (JStr (numberToFixed 2 (sample (pressureRandom d) 5 98))) (pressureNow d)
       (simulate ''ns=1;s=Temperature''
          (JStr (numberToFixed 2 (sample (tempRandom d) 10 20))) (tempNow d) srv)"

text \<open>A timer handle is truthy when it is not 0.\<close>

definition running :: "'cb server \<Rightarrow> bool" where
  "running srv \<longleftrightarrow> (case updateInterval srv of None \<Rightarrow> False | Some h \<Rightarrow> h \<noteq> 0)"

definition startDataSimulation :: "'cb server \<Rightarrow> 'cb server" where
  "startDataSimulation srv =
     (if running srv then srv
      else srv\<lparr>updateInterval := Some (Suc (issued srv)),
                timers := timers srv @ [Suc (issued srv)],
                issued := Suc (issued srv)\<rparr>)"

definition stopDataSimulation :: "'cb server \<Rightarrow> 'cb server" where
  "stopDataSimulation srv =
     (case updateInterval srv of
        None \<Rightarrow> srv
      | Some h \<Rightarrow>
          if h \<noteq> 0 then srv\<lparr>timers := removeAll h (timers srv), updateInterval := None\<rparr>
          else srv)"

text \<open>
  One period of 2000 ms passes: every active timer runs the tick once, with the draw
  \<open>env\<close> holds for it.
\<close>

definition elapse :: "'cb server \<Rightarrow> (nat \<Rightarrow> draw) \<Rightarrow> 'cb server" where
  "elapse srv env = fold (\<lambda>h s. tick s (env h)) (timers srv) srv"

section \<open>Where the model is the program\<close>

text \<open>
  An object lists integer-like keys first and keeps no key twice, and the key \<open>__proto__\<close>
  is not an ordinary property. \<open>entries\<close> lists every entry of the tree, parents before
  children. The address space is read as the program reads it when every key in it is
  plain; it has the data model's unique node ids when no key stands twice in the tree. The
  constructor builds such a tree and no operation changes a key, so every address space
  the server reaches is \<open>wellFormed\<close> (lemma \<open>wellFormed_performAll\<close> at the end).
\<close>

definition plainKey :: "string \<Rightarrow> bool" where
  "plainKey k \<longleftrightarrow> k \<notin> set objectPrototypeKeys \<and> (k = [] \<or> \<not> list_all isDecimalDigit k)"

fun entries :: "space \<Rightarrow> (string \<times> node) list" where
  "entries [] = []"
| "entries ((k, Node bn nid nc None dt v al ts) # rest) =
     (k, Node bn nid nc None dt v al ts) # entries rest"
| "entries ((k, Node bn nid nc (Some ch) dt v al ts) # rest) =
     (k, Node bn nid nc (Some ch) dt v al ts) # entries ch @ entries rest"

definition wellFormed :: "space \<Rightarrow> bool" where
  "wellFormed sp \<longleftrightarrow>
     distinct (map fst (entries sp)) \<and> list_all plainKey (map fst (entries sp))"

text \<open>
  The flat view of the tree: every node id with the fields of its node other than
  \<open>children\<close>. \<open>touch key g\<close> changes the fields under one id and nothing else.
\<close>

type_synonym fields =
  "string \<times> string \<times> string \<times> string option \<times> jsval option \<times> string option \<times> instant option"

fun fields :: "node \<Rightarrow> fields" where
  "fields (Node bn nid nc ch dt v al ts) = (bn, nid, nc, dt, v, al, ts)"

definition flat :: "space \<Rightarrow> (string \<times> fields) list" where
  "flat sp = map (\<lambda>(k, n). (k, fields n)) (entries sp)"

definition touch ::
  "string \<Rightarrow> (fields \<Rightarrow> fields) \<Rightarrow> (string \<times> fields) list \<Rightarrow> (string \<times> fields) list" where
  "touch key g xs = map (\<lambda>(k, x). if k = key then (k, g x) else (k, x)) xs"

definition stamped :: "jsval \<Rightarrow> instant \<Rightarrow> fields \<Rightarrow> fields" where
  "stamped v t = (\<lambda>(bn, nid, nc, dt, old, al, ts). (bn, nid, nc, dt, Some v, al, Some t))"

definition below :: "node \<Rightarrow> space" where
  "below n = (case children n of None \<Rightarrow> [] | Some ch \<Rightarrow> ch)"

fun mapFound :: "(node \<Rightarrow> node) \<Rightarrow> found \<Rightarrow> found" where
  "mapFound f (FoundNode n) = FoundNode (f n)"
| "mapFound f FoundInherited = FoundInherited"
| "mapFound f Null = Null"

text \<open>
  The calls the page can make on the server, the server after one of them, and after a
  sequence of them. \<open>Elapse\<close> is a period of the timer passing.
\<close>

datatype 'cb call =
    ReadNode string
  | WriteNode string string instant
  | BrowseNodes "string option"
  | Subscribe string 'cb
  | Unsubscribe string
  | Start
  | Stop
  | Elapse "nat \<Rightarrow> draw"

fun perform :: "'cb server \<Rightarrow> 'cb call \<Rightarrow> 'cb server" where
  "perform srv (ReadNode key) = snd (readNode srv key)"
| "perform srv (WriteNode key newValue now) = snd (writeNode srv key newValue now)"
| "perform srv (BrowseNodes parent) = snd (browseNodes srv parent)"
| "perform srv (Subscribe key callback) = snd (subscribe srv key callback)"
| "perform srv (Unsubscribe key) = snd (unsubscribe srv key)"
| "perform srv Start = startDataSimulation srv"
| "perform srv Stop = stopDataSimulation srv"
| "perform srv (Elapse env) = elapse srv env"

definition performAll :: "'cb server \<Rightarrow> 'cb call list \<Rightarrow> 'cb server" where
  "performAll srv calls = foldl perform srv calls"

text \<open>
  The timers of the page that run the tick are the one the server holds a handle of, and
  a handle is a positive number that was issued.
\<close>

definition clockInv :: "'cb server \<Rightarrow> bool" where
  "clockInv srv \<longleftrightarrow>
     (case updateInterval srv of
        None \<Rightarrow> timers srv = []
      | Some h \<Rightarrow> timers srv = [h] \<and> 0 < h \<and> h \<le> issued srv)"

text \<open>
  From \<open>srv\<close> to \<open>srv'\<close> callbacks were called, and only callbacks the registry of
  \<open>srv\<close> holds.
\<close>

definition calledOnly :: "'cb server \<Rightarrow> 'cb server \<Rightarrow> bool" where
  "calledOnly srv srv' \<longleftrightarrow>
     (\<exists>more. delivered srv' = delivered srv @ more
        \<and> fst ` set more \<subseteq> ran (map_of (subscriptions srv)))"

text \<open>
  The doubles: an integer below \<open>2^53\<close> in absolute value times a power of two from
  \<open>2^-1074\<close> to \<open>2^971\<close>. \<open>rounded q\<close> is the multiple \<open>roundDouble q\<close> settles on,
  before it is compared with \<open>2^1024\<close>, and \<open>exps a\<close> the exponents \<open>binade a\<close> is the
  greatest of.
\<close>

definition isDouble :: "rat \<Rightarrow> bool" where
  "isDouble d \<longleftrightarrow>
     (\<exists>m e. d = of_int m * 2 powi e \<and> \<bar>m\<bar> < 2 ^ 53 \<and> - 1074 \<le> e \<and> e \<le> 971)"

definition exps :: "rat \<Rightarrow> int set" where
  "exps a = insert (- 1022) {e \<in> {- 1022 .. 1023}. 2 powi e \<le> a}"

definition rounded :: "rat \<Rightarrow> rat" where
  "rounded q =
     (let a = \<bar>q\<bar>;
          u = 2 powi (binade a - 52);
          c = of_int (roundHalfEven (a / u)) * u
      in if q < 0 then - c else c)"

text \<open>
  The texts \<open>parseFloat\<close> is specified by. A decimal literal is spelled with digits, an
  optional point and fraction, and an optional exponent, with a digit before or after the
  point; it denotes the number its digits give, scaled by the exponent. A
  \<open>StrDecimalLiteral\<close> is a decimal literal or the word \<open>Infinity\<close>, with an optional sign;
  its value is the double nearest to the number denoted, an infinity when that is beyond
  the doubles, and an infinity for the word.
\<close>

definition spelled :: "string \<Rightarrow> bool \<Rightarrow> string \<Rightarrow> string \<Rightarrow> string" where
  "spelled ds pointed fs ex = ds @ (if pointed then CHR ''.'' # fs else []) @ ex"

definition exponentPart :: "string \<Rightarrow> int \<Rightarrow> bool" where
  "exponentPart ex k \<longleftrightarrow>
     (ex = [] \<and> k = 0)
     \<or> (\<exists>c sg es. ex = c # sg @ es \<and> (c = CHR ''e'' \<or> c = CHR ''E'')
           \<and> es \<noteq> [] \<and> list_all isDecimalDigit es
           \<and> (sg = [] \<and> k = int (digitsValue es)
              \<or> sg = ''+'' \<and> k = int (digitsValue es)
              \<or> sg = ''-'' \<and> k = - int (digitsValue es)))"

definition decimalLiteral :: "string \<Rightarrow> rat \<Rightarrow> bool" where
  "decimalLiteral p q \<longleftrightarrow>
     (\<exists>ds pointed fs ex k.
        p = spelled ds pointed fs ex
        \<and> list_all isDecimalDigit ds \<and> list_all isDecimalDigit fs
        \<and> (pointed \<or> fs = []) \<and> (ds \<noteq> [] \<or> fs \<noteq> [])
        \<and> exponentPart ex k
        \<and> q = scale (of_nat (digitsValue (ds @ fs)) / 10 ^ length fs) k)"

definition unsignedLiteral :: "string \<Rightarrow> jsnum \<Rightarrow> bool" where
  "unsignedLiteral u v \<longleftrightarrow>
     (u = ''Infinity'' \<and> v = PosInfinity) \<or> (\<exists>q. decimalLiteral u q \<and> v = roundDouble q)"

definition strDecimalLiteral :: "string \<Rightarrow> jsnum \<Rightarrow> bool" where
  "strDecimalLiteral p v \<longleftrightarrow>
     (\<exists>u w. unsignedLiteral u w
        \<and> (p = u \<and> v = w \<or> p = CHR ''+'' # u \<and> v = w \<or> p = CHR ''-'' # u \<and> v = negate w))"

text \<open>
  A literal the text begins with after its leading white space, and the longest of them.
\<close>

definition literalPrefixOf :: "string \<Rightarrow> string \<Rightarrow> bool" where
  "literalPrefixOf p s \<longleftrightarrow>
     (\<exists>r v. dropWhile isStrWhiteSpaceChar s = p @ r \<and> strDecimalLiteral p v)"

definition longestLiteralPrefix :: "string \<Rightarrow> string \<Rightarrow> bool" where
  "longestLiteralPrefix p s \<longleftrightarrow>
     literalPrefixOf p s \<and> (\<forall>p'. literalPrefixOf p' s \<longrightarrow> length p' \<le> length p)"

text \<open>A decimal number with an optional sign: the word \<open>Infinity\<close> is not one.\<close>

definition decimalNumberText :: "string \<Rightarrow> bool" where
  "decimalNumberText p \<longleftrightarrow>
     (\<exists>u q. decimalLiteral u q \<and> (p = u \<or> p = CHR ''+'' # u \<or> p = CHR ''-'' # u))"

text \<open>
  The part of a text the scan of \<open>parseUnsigned\<close> runs over: the exponent it accepts, the
  digits, point and exponent together, and these with \<open>Infinity\<close> and the sign.
\<close>

definition expText :: "string \<Rightarrow> string" where
  "expText r =
     (case r of
        [] \<Rightarrow> []
      | c # r1 \<Rightarrow>
          if c = CHR ''e'' \<or> c = CHR ''E'' then
            (case r1 of
               [] \<Rightarrow> []
             | d # r2 \<Rightarrow>
                 if d = CHR ''+'' \<or> d = CHR ''-'' then
                   (if takeWhile isDecimalDigit r2 = [] then []
                    else c # d # takeWhile isDecimalDigit r2)
                 else (if takeWhile isDecimalDigit r1 = [] then []
                       else c # takeWhile isDecimalDigit r1))
          else [])"

definition scanned :: "string \<Rightarrow> string" where
  "scanned t =
     (let ip = takeWhile isDecimalDigit t;
          r1 = dropWhile isDecimalDigit t;
          pointed = (r1 \<noteq> [] \<and> hd r1 = CHR ''.'');
          fp = (if pointed then takeWhile isDecimalDigit (tl r1) else []);
          r2 = (if pointed then dropWhile isDecimalDigit (tl r1) else r1)
      in spelled ip pointed fp (expText r2))"

definition taken :: "string \<Rightarrow> string" where
  "taken t = (if take 8 t = ''Infinity'' then ''Infinity'' else scanned t)"

definition consumed :: "string \<Rightarrow> string" where
  "consumed s =
     (case dropWhile isStrWhiteSpaceChar s of
        [] \<Rightarrow> []
      | c # u \<Rightarrow> if c = CHR ''-'' \<or> c = CHR ''+'' then c # taken u else taken (c # u))"

text \<open>What \<open>readNode\<close> makes of the fields of a node.\<close>

definition readFields :: "fields \<Rightarrow> readResult option" where
  "readFields = (\<lambda>(bn, nid, nc, dt, v, al, ts).
     if nc = ''Variable''
     then Some \<lparr>readValue = v, readDataType = dt, readAccessLevel = al, readTimestamp = ts\<rparr>
     else None)"

text \<open>The two node ids the tick names.\<close>

definition temperatureId :: string where
  "temperatureId = ''ns=1;s=Temperature''"

definition pressureId :: string where
  "pressureId = ''ns=1;s=Pressure''"

text \<open>
  The call an assignment to the node under \<open>key\<close> makes: one to the callback subscribed to
  the key, when the key names a node and has a callback.
\<close>

definition notified :: "'cb server \<Rightarrow> string \<Rightarrow> jsval \<Rightarrow> instant \<Rightarrow> ('cb \<times> jsval \<times> instant) list" where
  "notified srv key v now =
     (if key \<in> fst ` set (entries (addressSpace srv))
      then (case map_of (subscriptions srv) key of None \<Rightarrow> [] | Some cb \<Rightarrow> [(cb, v, now)])
      else [])"

text \<open>
  The text spells \<open>true\<close> in any mix of upper and lower case: the reading of
  "case-insensitively equal to true" that the comparison after \<open>toLowerCase\<close> is held
  against.
\<close>

definition letterOf :: "char \<Rightarrow> char \<times> char \<Rightarrow> bool" where
  "letterOf c p \<longleftrightarrow> c = fst p \<or> c = snd p"

definition spellsTrue :: "string \<Rightarrow> bool" where
  "spellsTrue raw \<longleftrightarrow>
     list_all2 letterOf raw
       [(CHR ''t'', CHR ''T''), (CHR ''r'', CHR ''R''), (CHR ''u'', CHR ''U''), (CHR ''e'', CHR ''E'')]"

text \<open>Nodes and servers the examples below are run on.\<close>

definition temperatureNode :: "instant \<Rightarrow> node" where
  "temperatureNode t = Node ''Temperature'' ''ns=1;s=Temperature'' ''Variable''
     None (Some ''Float'') (Some (JNum (Finite (51 / 2)))) (Some ''ReadWrite'') (Some t)"

definition pressureNode :: "instant \<Rightarrow> node" where
  "pressureNode t = Node ''Pressure'' ''ns=1;s=Pressure'' ''Variable''
     None (Some ''Float'') (Some (JNum (roundDouble (506 / 5)))) (Some ''ReadWrite'') (Some t)"

definition listeningServer :: "nat server" where
  "listeningServer = (constructor 1 2 3 4)\<lparr>subscriptions := [(''ns=1;s=Temperature'', 7)]\<rparr>"

definition halfDraw :: draw where
  "halfDraw = \<lparr>tempRandom = 1 / 2, tempNow = 5, pressureRandom = 1 / 4, pressureNow = 6\<rparr>"

definition topDraw :: draw where
  "topDraw = \<lparr>tempRandom = 4095 / 4096, tempNow = 5, pressureRandom = 0, pressureNow = 6\<rparr>"

definition flagNode :: node where
  "flagNode = Node ''Flag'' ''ns=2;s=Flag'' ''Variable''
     None (Some ''Boolean'') (Some (JBool False)) (Some ''ReadWrite'') (Some 0)"

definition flagServer :: "nat server" where
  "flagServer =
     \<lparr>addressSpace = [(''ns=2;s=Flag'', flagNode)], subscriptions = [], updateInterval = None,
      timers = [], issued = 0, delivered = []\<rparr>"

section \<open>Rounding to a double\<close>

text \<open>
  \<open>roundDouble\<close> gives a double nearest to its argument: no double is nearer
  (\<open>rounded_nearest\<close>). So it leaves a double as it is, keeps a number between two doubles
  between them, and gives an infinity from \<open>2^1024\<close> on.
\<close>

lemma exps_finite: "finite (exps a)"
proof -
  have "exps a \<subseteq> {- 1022 .. 1023}" unfolding exps_def by auto
  thus ?thesis by (rule finite_subset) simp
qed

lemma binade_exps: "binade a = Max (exps a)"
  unfolding binade_def exps_def ..

lemma binade_in: "binade a \<in> exps a"
  unfolding binade_exps by (rule Max_in [OF exps_finite]) (simp add: exps_def)

lemma binade_range: "- 1022 \<le> binade a \<and> binade a \<le> 1023"
  using binade_in [of a] unfolding exps_def by auto

lemma binade_le:
  assumes "2 powi (- 1022) \<le> a"
  shows "2 powi binade a \<le> a"
  using binade_in [of a] assms unfolding exps_def by auto

lemma binade_eq:
  assumes "- 1022 \<le> e" "e \<le> 1023" "2 powi e \<le> a" "a < 2 powi (e + 1)"
  shows "binade a = e"
  unfolding binade_exps
proof (rule Max_eqI)
  show "finite (exps a)" by (rule exps_finite)
  show "e \<in> exps a" using assms unfolding exps_def by simp
  fix y assume "y \<in> exps a"
  hence "y = - 1022 \<or> (2::rat) powi y \<le> a" unfolding exps_def by auto
  thus "y \<le> e"
  proof
    assume "y = - 1022" thus ?thesis using assms(1) by simp
  next
    assume le: "(2::rat) powi y \<le> a"
    show ?thesis
    proof (rule ccontr)
      assume "\<not> y \<le> e"
      hence "e + 1 \<le> y" by simp
      hence "(2::rat) powi (e + 1) \<le> 2 powi y" by (intro power_int_increasing) simp_all
      thus False using le assms(4) by simp
    qed
  qed
qed

lemma binade_small:
  assumes "a < 2 powi (- 1022)"
  shows "binade a = - 1022"
proof -
  have "\<And>e. e \<in> exps a \<Longrightarrow> e = - 1022"
  proof -
    fix e assume "e \<in> exps a"
    hence "e = - 1022 \<or> (- 1022 \<le> e \<and> (2::rat) powi e \<le> a)" unfolding exps_def by auto
    thus "e = - 1022"
    proof
      assume "e = - 1022" thus ?thesis .
    next
      assume h: "- 1022 \<le> e \<and> (2::rat) powi e \<le> a"
      have "(2::rat) powi (- 1022) \<le> 2 powi e"
        using h by (intro power_int_increasing) simp_all
      thus ?thesis using assms h by simp
    qed
  qed
  thus ?thesis using binade_in [of a] by blast
qed

lemma roundHalfEven_half: "\<bar>of_int (roundHalfEven x) - x\<bar> \<le> 1 / 2"
proof -
  have "of_int \<lfloor>x\<rfloor> \<le> x" "x < of_int \<lfloor>x\<rfloor> + 1" by linarith+
  thus ?thesis unfolding roundHalfEven_def Let_def by (auto simp: abs_if) linarith+
qed

lemma roundHalfEven_nearest: "\<bar>of_int (roundHalfEven x) - x\<bar> \<le> \<bar>of_int k - x\<bar>"
proof (cases "k = roundHalfEven x")
  case True thus ?thesis by simp
next
  case False
  hence "1 \<le> \<bar>k - roundHalfEven x\<bar>" by simp
  hence "(1::rat) \<le> \<bar>of_int k - of_int (roundHalfEven x)\<bar>"
    by (metis of_int_1 of_int_abs of_int_diff of_int_le_iff)
  thus ?thesis using roundHalfEven_half [of x] by linarith
qed

lemma isDouble_abs: "isDouble d \<Longrightarrow> isDouble \<bar>d\<bar>"
proof -
  assume "isDouble d"
  then obtain m e where d: "d = of_int m * 2 powi e" and m: "\<bar>m\<bar> < 2 ^ 53"
    and e: "- 1074 \<le> e" "e \<le> 971" unfolding isDouble_def by blast
  have "\<bar>d\<bar> = of_int \<bar>m\<bar> * 2 powi e" unfolding d by (simp add: abs_mult)
  thus ?thesis unfolding isDouble_def using m e by (intro exI [of _ "\<bar>m\<bar>"] exI [of _ e]) simp
qed

lemma isDouble_bound:
  assumes "isDouble d"
  shows "\<bar>d\<bar> < 2 powi 1024"
proof -
  obtain m e where d: "d = of_int m * 2 powi e" and m: "\<bar>m\<bar> < 2 ^ 53"
    and e: "- 1074 \<le> e" "e \<le> 971" using assms unfolding isDouble_def by blast
  have "\<bar>d\<bar> = of_int \<bar>m\<bar> * 2 powi e" unfolding d by (simp add: abs_mult)
  also have "\<dots> < 2 ^ 53 * 2 powi e"
  proof (rule mult_strict_right_mono)
    have "rat_of_int \<bar>m\<bar> < rat_of_int (2 ^ 53)" using m by (simp only: of_int_less_iff)
    thus "rat_of_int \<bar>m\<bar> < 2 ^ 53" by simp
    show "(0::rat) < 2 powi e" by simp
  qed
  also have "\<dots> = 2 powi (53 + e)" by (simp add: power_int_add)
  also have "\<dots> \<le> 2 powi 1024" using e by (intro power_int_increasing) simp_all
  finally show ?thesis .
qed

lemma isDouble_multiple:
  assumes "isDouble d" and "2 powi b \<le> \<bar>d\<bar> \<or> b = - 1022"
  shows "\<exists>k. d = of_int k * 2 powi (b - 52)"
proof -
  obtain m e where d: "d = of_int m * 2 powi e" and m: "\<bar>m\<bar> < 2 ^ 53"
    and e: "- 1074 \<le> e" "e \<le> 971" using assms(1) unfolding isDouble_def by blast
  have ge: "b - 52 \<le> e"
  proof (rule ccontr)
    assume "\<not> b - 52 \<le> e"
    hence lt: "53 + e \<le> b" by simp
    hence "b \<noteq> - 1022" using e by simp
    hence le: "2 powi b \<le> \<bar>d\<bar>" using assms(2) by simp
    have "\<bar>d\<bar> = of_int \<bar>m\<bar> * 2 powi e" unfolding d by (simp add: abs_mult)
    also have "\<dots> < 2 ^ 53 * 2 powi e"
    proof (rule mult_strict_right_mono)
      have "rat_of_int \<bar>m\<bar> < rat_of_int (2 ^ 53)" using m by (simp only: of_int_less_iff)
      thus "rat_of_int \<bar>m\<bar> < 2 ^ 53" by simp
      show "(0::rat) < 2 powi e" by simp
    qed
    also have "\<dots> = 2 powi (53 + e)" by (simp add: power_int_add)
    also have "\<dots> \<le> 2 powi b" using lt by (intro power_int_increasing) simp_all
    finally show False using le by simp
  qed
  define n where "n = nat (e - (b - 52))"
  have "e = int n + (b - 52)" unfolding n_def using ge by simp
  hence "(2::rat) powi e = 2 ^ n * 2 powi (b - 52)" by (simp add: power_int_add)
  hence "d = of_int (m * 2 ^ n) * 2 powi (b - 52)" unfolding d by simp
  thus ?thesis by blast
qed

lemma candidate_nearest:
  assumes a: "0 \<le> a" and dd: "isDouble d" and d0: "0 \<le> d"
  defines "u \<equiv> 2 powi (binade a - 52)"
  shows "\<bar>of_int (roundHalfEven (a / u)) * u - a\<bar> \<le> \<bar>d - a\<bar>"
proof -
  have u: "0 < u" unfolding u_def by simp
  have grid: "\<bar>of_int (roundHalfEven (a / u)) * u - a\<bar> \<le> \<bar>of_int k * u - a\<bar>" for k
  proof -
    have "\<bar>of_int j * u - a\<bar> = u * \<bar>of_int j - a / u\<bar>" for j :: int
    proof -
      have "of_int j * u - a = u * (of_int j - a / u)" using u by (simp add: field_simps)
      thus ?thesis using u by (simp add: abs_mult)
    qed
    thus ?thesis using roundHalfEven_nearest [of "a / u" k] u by simp
  qed
  show ?thesis
  proof (cases "2 powi binade a \<le> \<bar>d\<bar> \<or> binade a = - 1022")
    case True
    from isDouble_multiple [OF dd True] obtain k where "d = of_int k * u" unfolding u_def by blast
    thus ?thesis using grid [of k] by simp
  next
    case False
    hence lt: "d < 2 powi binade a" and ne: "binade a \<noteq> - 1022" using d0 by simp_all
    have "\<not> a < 2 powi (- 1022)" using binade_small [of a] ne by blast
    hence le: "2 powi binade a \<le> a" using binade_le [of a] by simp
    have "(2::rat) powi binade a = 2 ^ 52 * 2 powi (binade a - 52)"
      using power_int_add [of "2::rat" 52 "binade a - 52"] by simp
    hence "(2::rat) powi binade a = of_int (2 ^ 52) * u" unfolding u_def by simp
    hence "\<bar>of_int (roundHalfEven (a / u)) * u - a\<bar> \<le> \<bar>2 powi binade a - a\<bar>"
      using grid [of "2 ^ 52"] by simp
    thus ?thesis using lt le by linarith
  qed
qed

lemma roundHalfEven_nonneg: "0 \<le> x \<Longrightarrow> 0 \<le> roundHalfEven x"
  unfolding roundHalfEven_def Let_def by auto

lemma rounded_nearest:
  assumes "isDouble d"
  shows "\<bar>rounded q - q\<bar> \<le> \<bar>d - q\<bar>"
proof -
  define u :: rat where "u = 2 powi (binade \<bar>q\<bar> - 52)"
  define c where "c = of_int (roundHalfEven (\<bar>q\<bar> / u)) * u"
  have u: "0 < u" unfolding u_def by simp
  have c0: "0 \<le> c" unfolding c_def using u roundHalfEven_nonneg [of "\<bar>q\<bar> / u"] by simp
  have "\<bar>c - \<bar>q\<bar>\<bar> \<le> \<bar>\<bar>d\<bar> - \<bar>q\<bar>\<bar>"
    unfolding c_def u_def by (rule candidate_nearest) (simp_all add: isDouble_abs assms)
  moreover have "rounded q = (if q < 0 then - c else c)"
    unfolding rounded_def c_def u_def Let_def ..
  ultimately show ?thesis using c0 by (simp split: if_splits)
qed

lemma roundDouble_rounded:
  "roundDouble q = (if 2 powi 1024 \<le> \<bar>rounded q\<bar> then (if q < 0 then NegInfinity else PosInfinity)
                    else Finite (rounded q))"
proof -
  define u :: rat where "u = 2 powi (binade \<bar>q\<bar> - 52)"
  define c where "c = of_int (roundHalfEven (\<bar>q\<bar> / u)) * u"
  have u: "0 < u" unfolding u_def by simp
  have c0: "0 \<le> c" unfolding c_def using u roundHalfEven_nonneg [of "\<bar>q\<bar> / u"] by simp
  have r: "rounded q = (if q < 0 then - c else c)"
    unfolding rounded_def c_def u_def Let_def ..
  have "roundDouble q = (if 2 powi 1024 \<le> c then (if q < 0 then NegInfinity else PosInfinity)
                    else Finite (if q < 0 then - c else c))"
    unfolding roundDouble_def c_def u_def Let_def ..
  thus ?thesis using r c0 by simp
qed

lemma roundDouble_between:
  assumes "isDouble lo" "isDouble hi" "lo \<le> q" "q \<le> hi"
  shows "\<exists>c. roundDouble q = Finite c \<and> lo \<le> c \<and> c \<le> hi"
proof -
  have 1: "lo \<le> rounded q" using rounded_nearest [OF assms(1), of q] assms(3) by linarith
  have 2: "rounded q \<le> hi" using rounded_nearest [OF assms(2), of q] assms(4) by linarith
  have "\<bar>rounded q\<bar> < 2 powi 1024"
    using 1 2 isDouble_bound [OF assms(1)] isDouble_bound [OF assms(2)] by linarith
  thus ?thesis using 1 2 by (simp add: roundDouble_rounded)
qed

lemma roundDouble_exact: "isDouble q \<Longrightarrow> roundDouble q = Finite q"
  using roundDouble_between [of q q q] by auto

lemma isDouble_dyadic: "\<bar>m\<bar> < 2 ^ 53 \<Longrightarrow> k \<le> 1074 \<Longrightarrow> isDouble (of_int m / 2 ^ k)"
  unfolding isDouble_def
  by (intro exI [of _ m] exI [of _ "- int k"]) (simp add: power_int_minus field_simps)

lemma isDouble_int: "\<bar>m\<bar> < 2 ^ 53 \<Longrightarrow> isDouble (of_int m)"
  using isDouble_dyadic [of m 0] by simp

lemma roundDouble_overflow:
  assumes "2 powi 1024 \<le> \<bar>q\<bar>"
  shows "roundDouble q = (if q < 0 then NegInfinity else PosInfinity)"
proof -
  have b: "binade \<bar>q\<bar> = 1023"
  proof -
    have "(2::rat) powi 1023 \<le> 2 powi 1024" by (intro power_int_increasing) simp_all
    hence "1023 \<in> exps \<bar>q\<bar>" unfolding exps_def using assms by simp
    hence "1023 \<le> binade \<bar>q\<bar>" unfolding binade_exps by (intro Max_ge exps_finite)
    thus ?thesis using binade_range [of "\<bar>q\<bar>"] by simp
  qed
  define u :: rat where "u = 2 powi 971"
  have u: "0 < u" unfolding u_def by simp
  have "(2::rat) powi 1024 = 2 ^ 53 * u" unfolding u_def by simp
  hence "2 ^ 53 \<le> \<bar>q\<bar> / u" using assms u by (simp add: field_simps)
  hence "2 ^ 53 - 1 / 2 \<le> rat_of_int (roundHalfEven (\<bar>q\<bar> / u))"
    using roundHalfEven_half [of "\<bar>q\<bar> / u"] by linarith
  hence "rat_of_int (2 ^ 53 - 1) < rat_of_int (roundHalfEven (\<bar>q\<bar> / u))" by simp
  hence "2 ^ 53 \<le> roundHalfEven (\<bar>q\<bar> / u)" by (simp only: of_int_less_iff)
  hence "rat_of_int (2 ^ 53) \<le> rat_of_int (roundHalfEven (\<bar>q\<bar> / u))" by (simp only: of_int_le_iff)
  hence "2 ^ 53 * u \<le> rat_of_int (roundHalfEven (\<bar>q\<bar> / u)) * u" using u by simp
  hence "2 powi 1024 \<le> rat_of_int (roundHalfEven (\<bar>q\<bar> / u)) * u"
    using \<open>(2::rat) powi 1024 = 2 ^ 53 * u\<close> by simp
  thus ?thesis unfolding roundDouble_def Let_def b u_def by simp
qed

lemma roundDouble_at:
  assumes "- 1022 \<le> e" "e \<le> 1023" "2 powi e \<le> \<bar>q\<bar>" "\<bar>q\<bar> < 2 powi (e + 1)"
  shows "roundDouble q =
     (let c = of_int (roundHalfEven (\<bar>q\<bar> / 2 powi (e - 52))) * 2 powi (e - 52)
      in if 2 powi 1024 \<le> c then (if q < 0 then NegInfinity else PosInfinity)
         else Finite (if q < 0 then - c else c))"
  unfolding roundDouble_def binade_eq [OF assms] Let_def ..

lemma roundHalfEven_near:
  assumes "\<bar>of_int n - x\<bar> < 1 / 2"
  shows "roundHalfEven x = n"
proof (rule ccontr)
  assume "roundHalfEven x \<noteq> n"
  hence "1 \<le> \<bar>roundHalfEven x - n\<bar>" by simp
  hence "(1::rat) \<le> \<bar>of_int (roundHalfEven x) - of_int n\<bar>"
    by (metis of_int_1 of_int_abs of_int_diff of_int_le_iff)
  thus False using roundHalfEven_half [of x] assms by linarith
qed

lemma roundHalfEven_tie:
  assumes "x = of_int n + 1 / 2"
  shows "roundHalfEven x = (if even n then n else n + 1)"
proof -
  have "\<lfloor>x\<rfloor> = n" unfolding assms by (rule floor_unique) simp_all
  thus ?thesis unfolding roundHalfEven_def Let_def using assms by simp
qed

text \<open>The constructor's literal \<open>101.2\<close> as a double: \<open>7121316910779597 / 2^46\<close>.\<close>

lemma pressure_literal:
  "roundDouble (506 / 5) = Finite (7121316910779597 / 70368744177664)"
  by (simp add: roundDouble_at [of 6] roundHalfEven_near [of 7121316910779597] power_int_minus)

lemma roundDouble_number [simp]: "roundDouble q \<noteq> NaN"
  by (simp add: roundDouble_def Let_def)

lemma double_examples:
  "roundDouble 0 = Finite 0"
  "roundDouble 5 = Finite 5"
  "roundDouble 25 = Finite 25"
  "roundDouble 30 = Finite 30"
  "roundDouble 98 = Finite 98"
  "roundDouble (5 / 4) = Finite (5 / 4)"
  "roundDouble (107 / 4) = Finite (107 / 4)"
  "roundDouble (397 / 4) = Finite (397 / 4)"
  "roundDouble (20475 / 2048) = Finite (20475 / 2048)"
  "roundDouble (61435 / 2048) = Finite (61435 / 2048)"
  using roundDouble_exact [OF isDouble_int [of 0]] roundDouble_exact [OF isDouble_int [of 5]]
    roundDouble_exact [OF isDouble_int [of 25]] roundDouble_exact [OF isDouble_int [of 30]]
    roundDouble_exact [OF isDouble_int [of 98]]
    roundDouble_exact [OF isDouble_dyadic [of 5 2]]
    roundDouble_exact [OF isDouble_dyadic [of 107 2]]
    roundDouble_exact [OF isDouble_dyadic [of 397 2]]
    roundDouble_exact [OF isDouble_dyadic [of 20475 11]]
    roundDouble_exact [OF isDouble_dyadic [of 61435 11]]
  by simp_all

section \<open>\<open>findNode\<close> finds the node a key names\<close>

lemma set_entries: "set cs \<subseteq> set (entries cs)"
  by (induction cs rule: entries.induct) auto

lemma getMember_Own: "getMember obj key = Own v \<longleftrightarrow> map_of obj key = Some v"
  by (simp add: getMember_def split: option.splits)

lemma getMember_Undefined:
  "getMember obj key = Undefined \<longleftrightarrow> map_of obj key = None \<and> key \<notin> set objectPrototypeKeys"
  by (simp add: getMember_def split: option.splits)

lemma getMember_Inherited:
  "getMember obj key = Inherited \<longleftrightarrow> map_of obj key = None \<and> key \<in> set objectPrototypeKeys"
  by (simp add: getMember_def split: option.splits)

lemma find_sound:
  "findNode key cs = FoundNode n \<Longrightarrow> (key, n) \<in> set (entries cs)"
  "findLoop key cs = FoundNode n \<Longrightarrow> (key, n) \<in> set (entries cs)"
proof (induction key cs and key cs rule: findNode_findLoop.induct)
  case (1 key currentSpace)
  then show ?case
    using set_entries [of currentSpace]
    by (auto simp: getMember_Own split: member.splits dest: map_of_SomeD)
next
  case (2 key)
  then show ?case by simp
next
  case (3 key k bn nid nc dt v al ts rest)
  then show ?case by simp
next
  case (4 key k bn nid nc ch dt v al ts rest)
  then show ?case by (auto split: found.splits)
qed

lemma find_not_inherited:
  "key \<notin> set objectPrototypeKeys \<Longrightarrow> findNode key cs \<noteq> FoundInherited"
  "key \<notin> set objectPrototypeKeys \<Longrightarrow> findLoop key cs \<noteq> FoundInherited"
proof (induction key cs and key cs rule: findNode_findLoop.induct)
  case (1 key currentSpace)
  then show ?case
    by (auto simp: getMember_Inherited split: member.splits)
next
  case (4 key k bn nid nc ch dt v al ts rest)
  then show ?case by (auto split: found.splits)
qed simp_all

lemma find_complete:
  "key \<notin> set objectPrototypeKeys \<Longrightarrow> key \<in> fst ` set (entries cs) \<Longrightarrow>
     \<exists>n. findNode key cs = FoundNode n"
  "key \<notin> set objectPrototypeKeys \<Longrightarrow> key \<in> fst ` set (entries cs) \<Longrightarrow>
     key \<notin> fst ` set cs \<Longrightarrow> \<exists>n. findLoop key cs = FoundNode n"
proof (induction key cs and key cs rule: findNode_findLoop.induct)
  case (1 key currentSpace)
  show ?case
  proof (cases "getMember currentSpace key")
    case (Own n)
    then show ?thesis by simp
  next
    case Inherited
    with 1(2) show ?thesis by (simp add: getMember_Inherited)
  next
    case Undefined
    then have "key \<notin> fst ` set currentSpace"
      by (simp add: getMember_Undefined map_of_eq_None_iff)
    with 1 Undefined show ?thesis by simp
  qed
next
  case (2 key)
  then show ?case by simp
next
  case (3 key k bn nid nc dt v al ts rest)
  then show ?case by auto
next
  case (4 key k bn nid nc ch dt v al ts rest)
  show ?case
  proof (cases "key \<in> fst ` set (entries ch)")
    case True
    with 4(1) 4(3) obtain n where "findNode key ch = FoundNode n" by blast
    then show ?thesis by simp
  next
    case False
    with 4(4) 4(5) have r: "key \<in> fst ` set (entries rest)" "key \<notin> fst ` set rest" by auto
    show ?thesis
    proof (cases "findNode key ch")
      case (FoundNode n)
      then show ?thesis by simp
    next
      case FoundInherited
      with 4(3) show ?thesis
        using find_not_inherited(1) by blast
    next
      case Null
      with 4(2) 4(3) r show ?thesis by simp
    qed
  qed
qed

lemma find_unique:
  assumes "distinct (map fst (entries cs))" "(key, n) \<in> set (entries cs)"
    "key \<notin> set objectPrototypeKeys"
  shows "findNode key cs = FoundNode n"
proof -
  from assms(2) have "key \<in> fst ` set (entries cs)" by force
  with assms(3) obtain m where m: "findNode key cs = FoundNode m"
    using find_complete(1) by blast
  then have "(key, m) \<in> set (entries cs)" by (rule find_sound(1))
  with assms(1,2) have "m = n" by (meson eq_key_imp_eq_value)
  with m show ?thesis by simp
qed

lemma find_absent:
  "key \<notin> fst ` set (entries cs) \<Longrightarrow> findNode key cs = Null \<or> findNode key cs = FoundInherited"
  using find_sound(1) [of key cs] by (cases "findNode key cs") force+

declare findNode.simps [simp del]

lemma entries_constructed:
  "map fst (entries (constructedSpace t1 t2 t3 t4)) =
     [''ns=0;i=84'', ''ns=1;s=Folder1'', ''ns=1;s=Temperature'', ''ns=1;s=Pressure'',
      ''ns=1;s=Status'', ''ns=1;s=DeviceName'']"
  by (simp add: constructedSpace_def)

lemma wellFormed_constructed: "wellFormed (constructedSpace t1 t2 t3 t4)"
  unfolding wellFormed_def entries_constructed
  by (simp add: plainKey_def objectPrototypeKeys_def isDecimalDigit_def)

lemma wellFormed_find:
  assumes "wellFormed sp" "(key, n) \<in> set (entries sp)"
  shows "findNode key sp = FoundNode n"
proof -
  from assms(2) have "key \<in> set (map fst (entries sp))" by force
  with assms(1) have "plainKey key" by (auto simp: wellFormed_def list_all_iff)
  then have "key \<notin> set objectPrototypeKeys" by (simp add: plainKey_def)
  with assms show ?thesis by (simp add: wellFormed_def find_unique)
qed

section \<open>Assignment changes the node found and no other\<close>

lemma keys_assignLoop: "map fst (assignLoop key f cs) = map fst cs"
  by (induction key f cs rule: assignNode_assignLoop.induct(2)[where P="\<lambda>_ _ _. True"])
     (auto split: found.splits)

lemma getMember_keys:
  "map fst xs = map fst ys \<Longrightarrow> getMember xs key = Undefined \<Longrightarrow> getMember ys key = Undefined"
  by (metis getMember_Undefined map_of_eq_None_iff set_map)

lemma getMember_update: "getMember (AList.update key v cs) key = Own v"
  by (simp add: getMember_Own update_conv')

lemma find_assign:
  "findNode key (assignNode key f cs) = mapFound f (findNode key cs)"
  "findLoop key (assignLoop key f cs) = mapFound f (findLoop key cs)"
proof (induction key f cs and key f cs rule: assignNode_assignLoop.induct)
  case (1 key f currentSpace)
  show ?case
  proof (cases "getMember currentSpace key")
    case (Own n)
    then show ?thesis by (simp add: findNode.simps getMember_update)
  next
    case Inherited
    then show ?thesis by (simp add: findNode.simps)
  next
    case Undefined
    then have "getMember (assignLoop key f currentSpace) key = Undefined"
      using getMember_keys [OF keys_assignLoop [symmetric]] by blast
    with Undefined 1 show ?thesis by (simp add: findNode.simps)
  qed
next
  case (4 key f k bn nid nc ch dt v al ts rest)
  then show ?case by (cases "findNode key ch") auto
qed simp_all

lemma entries_Cons: "entries ((k, n) # rest) = (k, n) # entries (below n) @ entries rest"
  by (cases n; cases "children n") (auto simp: below_def)

lemma flat_Cons: "flat ((k, n) # rest) = (k, fields n) # flat (below n) @ flat rest"
  by (simp add: flat_def entries_Cons)

lemma flat_Nil: "flat [] = []"
  by (simp add: flat_def)

lemma keys_flat: "map fst (flat sp) = map fst (entries sp)"
  by (simp add: flat_def case_prod_unfold comp_def)

lemma touch_absent: "key \<notin> set (map fst xs) \<Longrightarrow> touch key g xs = xs"
  by (induction xs) (auto simp: touch_def)

lemma touch_append: "touch key g (xs @ ys) = touch key g xs @ touch key g ys"
  by (simp add: touch_def)

lemma touch_Cons: "touch key g ((k, x) # xs) = (if k = key then (k, g x) else (k, x)) # touch key g xs"
  by (simp add: touch_def)

lemma keys_top: "set (map fst cs) \<subseteq> set (map fst (entries cs))"
  using set_entries [of cs] by auto

lemma flat_update:
  assumes "map_of cs key = Some n" "fields n' = g (fields n)" "below n' = below n"
    "distinct (map fst (entries cs))"
  shows "flat (AList.update key n' cs) = touch key g (flat cs)"
  using assms
proof (induction cs)
  case Nil
  then show ?case by simp
next
  case (Cons a cs)
  obtain k m where a: "a = (k, m)" by (cases a)
  from Cons.prems(4) have d: "distinct (map fst (entries (below m)))" "distinct (map fst (entries cs))"
    "k \<notin> set (map fst (entries (below m)))" "k \<notin> set (map fst (entries cs))"
    "set (map fst (entries (below m))) \<inter> set (map fst (entries cs)) = {}"
    by (auto simp: a entries_Cons)
  show ?case
  proof (cases "k = key")
    case True
    with Cons.prems a have "m = n" by simp
    with True d Cons.prems show ?thesis
      by (simp add: a flat_Cons touch_Cons touch_append touch_absent keys_flat)
  next
    case False
    with Cons.prems a have mo: "map_of cs key = Some n" by simp
    then have "key \<in> set (map fst cs)" by (metis map_of_eq_None_iff option.distinct(1) set_map)
    with keys_top have "key \<in> set (map fst (entries cs))" by blast
    with d have "key \<notin> set (map fst (entries (below m)))" by blast
    with False Cons.IH [OF mo Cons.prems(2,3) d(2)] show ?thesis
      by (simp add: a flat_Cons touch_Cons touch_append touch_absent keys_flat)
  qed
qed

lemma below_Node [simp]:
  "below (Node bn nid nc None dt v al ts) = []"
  "below (Node bn nid nc (Some ch) dt v al ts) = ch"
  by (simp_all add: below_def)

lemma flat_assign:
  "\<forall>n. fields (f n) = g (fields n) \<and> below (f n) = below n \<Longrightarrow>
     distinct (map fst (entries cs)) \<Longrightarrow> key \<notin> set objectPrototypeKeys \<Longrightarrow>
       flat (assignNode key f cs) = touch key g (flat cs)"
  "\<forall>n. fields (f n) = g (fields n) \<and> below (f n) = below n \<Longrightarrow>
     distinct (map fst (entries cs)) \<Longrightarrow> key \<notin> set objectPrototypeKeys \<Longrightarrow>
       key \<notin> set (map fst cs) \<Longrightarrow> flat (assignLoop key f cs) = touch key g (flat cs)"
proof (induction key f cs and key f cs rule: assignNode_assignLoop.induct)
  case (1 key f currentSpace)
  show ?case
  proof (cases "getMember currentSpace key")
    case (Own n)
    then have "map_of currentSpace key = Some n" by (simp add: getMember_Own)
    from flat_update [OF this _ _ "1.prems"(2), of "f n" g] "1.prems"(1) Own show ?thesis by simp
  next
    case Inherited
    with "1.prems"(3) show ?thesis by (simp add: getMember_Inherited)
  next
    case Undefined
    then have "key \<notin> set (map fst currentSpace)"
      by (simp add: getMember_Undefined map_of_eq_None_iff)
    with 1 Undefined show ?thesis by simp
  qed
next
  case (2 key f)
  show ?case by (simp add: flat_Nil touch_def)
next
  case (3 key f k bn nid nc dt v al ts rest)
  then show ?case
    by (auto simp: flat_Cons flat_Nil touch_Cons)
next
  case (4 key f k bn nid nc ch dt v al ts rest)
  note p = "4.prems"
  from p(2) have d: "distinct (map fst (entries ch))" "distinct (map fst (entries rest))"
    "set (map fst (entries ch)) \<inter> set (map fst (entries rest)) = {}"
    by (auto simp: entries_Cons)
  from p(4) have k: "k \<noteq> key" "key \<notin> set (map fst rest)" by auto
  show ?case
  proof (cases "findNode key ch")
    case Null
    then have "key \<notin> set (map fst (entries ch))"
      using find_complete(1) [OF p(3), of ch] by auto
    with Null "4.IH"(3) [OF Null p(1) d(2) p(3) k(2)] k show ?thesis
      by (simp add: flat_Cons touch_Cons touch_append touch_absent keys_flat)
  next
    case (FoundNode m)
    then have "key \<in> set (map fst (entries ch))"
      using find_sound(1) by force
    with d have "key \<notin> set (map fst (entries rest))" by blast
    with FoundNode "4.IH"(1) [OF FoundNode p(1) d(1) p(3)] k show ?thesis
      by (simp add: flat_Cons touch_Cons touch_append touch_absent keys_flat)
  next
    case FoundInherited
    with find_not_inherited(1) [OF p(3)] show ?thesis by blast
  qed
qed

lemma keys_touch: "map fst (touch key g xs) = map fst xs"
  by (induction xs) (auto simp: touch_def)

declare assignNode.simps [simp del]

lemma assign_inherited:
  "key \<in> set objectPrototypeKeys \<Longrightarrow> key \<notin> set (map fst (entries cs)) \<Longrightarrow>
     assignNode key f cs = cs"
proof -
  assume a: "key \<in> set objectPrototypeKeys" "key \<notin> set (map fst (entries cs))"
  with keys_top [of cs] have "key \<notin> set (map fst cs)" by blast
  then have "map_of cs key = None" by (simp add: map_of_eq_None_iff)
  with a show ?thesis by (simp add: assignNode.simps getMember_def)
qed

lemma wellFormed_flat_assign:
  assumes "wellFormed sp"
  shows "flat (assignNode key (setValue v t) sp) =
    touch key (stamped v t) (flat sp)"
proof (cases "key \<in> set objectPrototypeKeys")
  case True
  with assms have "key \<notin> set (map fst (entries sp))"
    by (auto simp: wellFormed_def list_all_iff plainKey_def)
  with True show ?thesis
    by (simp add: assign_inherited touch_absent keys_flat)
next
  case False
  have "\<forall>n. fields (setValue v t n) = stamped v t (fields n)
        \<and> below (setValue v t n) = below n"
  proof
    fix n show "fields (setValue v t n) = stamped v t (fields n)
        \<and> below (setValue v t n) = below n"
      by (cases n) (simp add: below_def stamped_def)
  qed
  from flat_assign(1) [OF this _ False] assms show ?thesis
    by (simp add: wellFormed_def)
qed

lemma wellFormed_assign:
  assumes "wellFormed sp"
  shows "wellFormed (assignNode key (setValue v t) sp)"
proof -
  have "map fst (entries (assignNode key (setValue v t) sp)) = map fst (entries sp)"
    using wellFormed_flat_assign [OF assms, of key v t]
    by (metis keys_flat keys_touch)
  with assms show ?thesis by (simp add: wellFormed_def)
qed

section \<open>Reading\<close>

text \<open>
  C7. In an address space with unique, plain node ids: \<open>readNode\<close> returns the value, data
  type, access level and timestamp of the node the id names when that node is a Variable;
  it returns \<open>null\<close> when the id names a node of another class, and when the id names no
  node of the tree; and in every case it leaves the server, address space and
  subscriptions included, as it was.
\<close>

theorem readNode_resolves:
  assumes "wellFormed (addressSpace srv)"
  shows "((key, n) \<in> set (entries (addressSpace srv)) \<and> nodeClass n = ''Variable'' \<longrightarrow>
            readNode srv key =
              (Some \<lparr>readValue = nodeValue n, readDataType = dataType n,
                      readAccessLevel = accessLevel n, readTimestamp = timestamp n\<rparr>, srv))
       \<and> ((key, n) \<in> set (entries (addressSpace srv)) \<and> nodeClass n \<noteq> ''Variable'' \<longrightarrow>
            readNode srv key = (None, srv))
       \<and> (key \<notin> fst ` set (entries (addressSpace srv)) \<longrightarrow> readNode srv key = (None, srv))
       \<and> snd (readNode srv key) = srv"
proof -
  have a: "readNode srv key = (None, srv)" if "key \<notin> fst ` set (entries (addressSpace srv))"
    using find_absent [OF that] by (auto simp: readNode_def)
  have b: "snd (readNode srv key) = srv"
    by (simp add: readNode_def split: found.splits)
  have c: "findNode key (addressSpace srv) = FoundNode n"
    if "(key, n) \<in> set (entries (addressSpace srv))"
    using wellFormed_find [OF assms that] .
  show ?thesis using a b c by (auto simp: readNode_def)
qed

theorem readNode_resolves_witness:
  "wellFormed (addressSpace (constructor 1 2 3 4 :: nat server))
   \<and> readNode (constructor 1 2 3 4 :: nat server) ''ns=1;s=Temperature'' =
       (Some \<lparr>readValue = Some (JNum (Finite (51 / 2))), readDataType = Some ''Float'',
               readAccessLevel = Some ''ReadWrite'', readTimestamp = Some 1\<rparr>,
        constructor 1 2 3 4)
   \<and> readNode (constructor 1 2 3 4 :: nat server) ''ns=1;s=Folder1'' = (None, constructor 1 2 3 4)
   \<and> readNode (constructor 1 2 3 4 :: nat server) ''ns=1;s=Nothing'' = (None, constructor 1 2 3 4)"
proof -
  let ?srv = "constructor 1 2 3 4 :: nat server"
  have wf: "wellFormed (addressSpace ?srv)"
    by (simp add: constructor_def wellFormed_constructed)
  have e: "entries (addressSpace ?srv) = entries (constructedSpace 1 2 3 4)"
    by (simp add: constructor_def)
  note t = readNode_resolves [OF wf, of "''ns=1;s=Temperature''"
      "Node ''Temperature'' ''ns=1;s=Temperature'' ''Variable''
         None (Some ''Float'') (Some (JNum (Finite (51 / 2)))) (Some ''ReadWrite'') (Some 1)"]
  note f = readNode_resolves [OF wf, of "''ns=1;s=Folder1''"
      "snd (hd (the (children (snd (hd (constructedSpace 1 2 3 4))))))"]
  note z = readNode_resolves [OF wf, of "''ns=1;s=Nothing''" undefined]
  have 1: "readNode ?srv ''ns=1;s=Temperature'' =
       (Some \<lparr>readValue = Some (JNum (Finite (51 / 2))), readDataType = Some ''Float'',
               readAccessLevel = Some ''ReadWrite'', readTimestamp = Some 1\<rparr>, ?srv)"
    using t unfolding e by (simp add: constructedSpace_def)
  have 2: "readNode ?srv ''ns=1;s=Folder1'' = (None, ?srv)"
    using f unfolding e by (simp add: constructedSpace_def)
  have 3: "readNode ?srv ''ns=1;s=Nothing'' = (None, ?srv)"
    using z unfolding e by (simp add: entries_constructed flip: set_map)
  from wf 1 2 3 show ?thesis by simp
qed

section \<open>Writing\<close>

lemma wellFormed_plain:
  assumes "wellFormed sp" "(key, n) \<in> set (entries sp)"
  shows "key \<notin> set objectPrototypeKeys"
proof -
  from assms(2) have "key \<in> set (map fst (entries sp))" by force
  with assms(1) have "plainKey key" by (auto simp: wellFormed_def list_all_iff)
  then show ?thesis by (simp add: plainKey_def)
qed

lemma getMember_plain:
  "key \<notin> set objectPrototypeKeys \<Longrightarrow>
     getMember obj key = (case map_of obj key of None \<Rightarrow> Undefined | Some v \<Rightarrow> Own v)"
  by (simp add: getMember_def)

lemma setValue_sel [simp]:
  "nodeValue (setValue v t n) = Some v" "timestamp (setValue v t n) = Some t"
  "nodeClass (setValue v t n) = nodeClass n" "dataType (setValue v t n) = dataType n"
  "accessLevel (setValue v t n) = accessLevel n" "browseName (setValue v t n) = browseName n"
  "nodeId (setValue v t n) = nodeId n" "children (setValue v t n) = children n"
  by (cases n; simp)+

lemma write_ok:
  assumes "wellFormed (addressSpace srv)"
    and "(key, node) \<in> set (entries (addressSpace srv))"
    and "nodeClass node = ''Variable''"
    and "accessLevel node = Some ''ReadWrite''"
    and "convert (dataType node) newValue = Inr v"
  shows "fst (writeNode srv key newValue now) =
           Returned \<lparr>success = True, message = ValueUpdated (browseName node) v,
                     resTimestamp = Some now, resDataType = dataType node\<rparr>
       \<and> fst (readNode (snd (writeNode srv key newValue now)) key) =
           Some \<lparr>readValue = Some v, readDataType = dataType node,
                  readAccessLevel = Some ''ReadWrite'', readTimestamp = Some now\<rparr>
       \<and> flat (addressSpace (snd (writeNode srv key newValue now))) =
           touch key (stamped v now) (flat (addressSpace srv))
       \<and> delivered (snd (writeNode srv key newValue now)) =
           delivered srv @
             (case map_of (subscriptions srv) key of
                None \<Rightarrow> []
              | Some callback \<Rightarrow> [(callback, v, now)])
       \<and> subscriptions (snd (writeNode srv key newValue now)) = subscriptions srv"
proof -
  let ?sp = "assignNode key (setValue v now) (addressSpace srv)"
  let ?srv1 = "srv\<lparr>addressSpace := ?sp\<rparr>"
  let ?ok = "\<lparr>success = True, message = ValueUpdated (browseName node) v,
                     resTimestamp = Some now, resDataType = dataType node\<rparr>"
  have f: "findNode key (addressSpace srv) = FoundNode node"
    using wellFormed_find [OF assms(1,2)] .
  have p: "key \<notin> set objectPrototypeKeys"
    using wellFormed_plain [OF assms(1,2)] .
  have w: "writeNode srv key newValue now =
      (Returned ?ok,
       (case map_of (subscriptions srv) key of
          None \<Rightarrow> ?srv1
        | Some callback \<Rightarrow> ?srv1\<lparr>delivered := delivered srv @ [(callback, v, now)]\<rparr>))"
    using f assms(3,4,5) by (simp add: writeNode_def getMember_plain [OF p] Let_def split: option.splits)
  have a: "findNode key ?sp = FoundNode (setValue v now node)"
    by (simp add: find_assign(1) f)
  have r: "fst (readNode (snd (writeNode srv key newValue now)) key) =
           Some \<lparr>readValue = Some v, readDataType = dataType node,
                  readAccessLevel = Some ''ReadWrite'', readTimestamp = Some now\<rparr>"
    using a assms(3,4) by (simp add: w readNode_def split: option.splits)
  have fl: "flat (addressSpace (snd (writeNode srv key newValue now))) =
           touch key (stamped v now) (flat (addressSpace srv))"
    using wellFormed_flat_assign [OF assms(1), of key v now] by (simp add: w split: option.splits)
  show ?thesis using r fl by (simp add: w split: option.splits)
qed

lemmas parse_defs = parseFloat_def parseUnsigned_def isStrWhiteSpaceChar_def isDecimalDigit_def
  digitsValue_def digitValue_def exponentValue_def scale_def Let_def

lemma temperature_entry:
  "(''ns=1;s=Temperature'', temperatureNode t1) \<in> set (entries (constructedSpace t1 t2 t3 t4))"
  by (simp add: constructedSpace_def temperatureNode_def)

text \<open>
  C2. In an address space with unique, plain node ids, let the id name a Variable node
  with access level ReadWrite and let the text coerce to \<open>v\<close> under the node's data type.
  Then \<open>writeNode\<close> returns a success result with the confirmation message, the instant
  \<open>now\<close> and the data type; afterwards the node reads back \<open>v\<close> and \<open>now\<close>, and no other
  node has changed; the callback subscribed to the id, if there is one, has been called
  exactly once more, with \<open>v\<close> and \<open>now\<close>, and no callback has been called otherwise.
\<close>

theorem writeNode_success:
  assumes "wellFormed (addressSpace srv)"
    and "(key, node) \<in> set (entries (addressSpace srv))"
    and "nodeClass node = ''Variable''"
    and "accessLevel node = Some ''ReadWrite''"
    and "convert (dataType node) newValue = Inr v"
  shows "fst (writeNode srv key newValue now) =
           Returned \<lparr>success = True, message = ValueUpdated (browseName node) v,
                     resTimestamp = Some now, resDataType = dataType node\<rparr>
       \<and> fst (readNode (snd (writeNode srv key newValue now)) key) =
           Some \<lparr>readValue = Some v, readDataType = dataType node,
                  readAccessLevel = Some ''ReadWrite'', readTimestamp = Some now\<rparr>
       \<and> flat (addressSpace (snd (writeNode srv key newValue now))) =
           touch key (stamped v now) (flat (addressSpace srv))
       \<and> delivered (snd (writeNode srv key newValue now)) =
           delivered srv @
             (case map_of (subscriptions srv) key of
                None \<Rightarrow> []
              | Some callback \<Rightarrow> [(callback, v, now)])
       \<and> subscriptions (snd (writeNode srv key newValue now)) = subscriptions srv"
  using write_ok [OF assms] .

theorem writeNode_success_witness:
  "wellFormed (addressSpace ((constructor 1 2 3 4 :: nat server)
       \<lparr>subscriptions := [(''ns=1;s=Temperature'', 7)]\<rparr>))
   \<and> fst (writeNode ((constructor 1 2 3 4 :: nat server)
              \<lparr>subscriptions := [(''ns=1;s=Temperature'', 7)]\<rparr>)
            ''ns=1;s=Temperature'' ''26.75'' 9) =
       Returned \<lparr>success = True,
                 message = ValueUpdated ''Temperature'' (JNum (Finite (107 / 4))),
                 resTimestamp = Some 9, resDataType = Some ''Float''\<rparr>
   \<and> fst (readNode (snd (writeNode ((constructor 1 2 3 4 :: nat server)
              \<lparr>subscriptions := [(''ns=1;s=Temperature'', 7)]\<rparr>)
            ''ns=1;s=Temperature'' ''26.75'' 9)) ''ns=1;s=Temperature'') =
       Some \<lparr>readValue = Some (JNum (Finite (107 / 4))), readDataType = Some ''Float'',
              readAccessLevel = Some ''ReadWrite'', readTimestamp = Some 9\<rparr>
   \<and> delivered (snd (writeNode ((constructor 1 2 3 4 :: nat server)
              \<lparr>subscriptions := [(''ns=1;s=Temperature'', 7)]\<rparr>)
            ''ns=1;s=Temperature'' ''26.75'' 9)) = [(7, JNum (Finite (107 / 4)), 9)]"
proof -
  let ?srv = "(constructor 1 2 3 4 :: nat server)\<lparr>subscriptions := [(''ns=1;s=Temperature'', 7)]\<rparr>"
  have wf: "wellFormed (addressSpace ?srv)"
    by (simp add: constructor_def wellFormed_constructed)
  have m: "(''ns=1;s=Temperature'', temperatureNode 1) \<in> set (entries (addressSpace ?srv))"
    by (simp add: constructor_def temperature_entry)
  have c: "convert (dataType (temperatureNode 1)) ''26.75'' = Inr (JNum (Finite (107 / 4)))"
    by (simp add: temperatureNode_def convert_def parse_defs double_examples)
  from writeNode_success [OF wf m _ _ c, of 9] wf show ?thesis
    by (simp add: temperatureNode_def constructor_def)
qed

lemma writeNode_returns:
  assumes "wellFormed (addressSpace srv)"
  shows "fst (writeNode srv key newValue now) \<noteq> Threw"
proof (cases "findNode key (addressSpace srv)")
  case (FoundNode n)
  then have "(key, n) \<in> set (entries (addressSpace srv))" by (rule find_sound(1))
  from wellFormed_plain [OF assms this] FoundNode show ?thesis
    by (simp add: writeNode_def getMember_plain Let_def split: sum.splits option.splits)
qed (simp_all add: writeNode_def)

text \<open>
  C3. In an address space with unique, plain node ids, a write whose id names no node,
  or a node that is not a Variable, or a Variable that is not ReadWrite, or a Float
  Variable with a text \<open>parseFloat\<close> turns into \<open>NaN\<close>, returns a failure result and the
  server as it was; for the Float the message holds the text of the error and the data
  type. Whenever a write returns a failure result, the whole server is as it was: every
  node's value and timestamp, and the list of callback calls. No write throws.
\<close>

theorem writeNode_failure:
  assumes "wellFormed (addressSpace srv)"
  shows "(key \<notin> fst ` set (entries (addressSpace srv)) \<longrightarrow>
            writeNode srv key newValue now = (Returned (failure (NotFoundOrNotVariable key)), srv))
       \<and> ((key, n) \<in> set (entries (addressSpace srv)) \<and> nodeClass n \<noteq> ''Variable'' \<longrightarrow>
            writeNode srv key newValue now = (Returned (failure (NotFoundOrNotVariable key)), srv))
       \<and> ((key, n) \<in> set (entries (addressSpace srv)) \<and> nodeClass n = ''Variable''
            \<and> accessLevel n \<noteq> Some ''ReadWrite'' \<longrightarrow>
            writeNode srv key newValue now = (Returned (failure (IsReadOnly (browseName n))), srv))
       \<and> ((key, n) \<in> set (entries (addressSpace srv)) \<and> nodeClass n = ''Variable''
            \<and> accessLevel n = Some ''ReadWrite'' \<and> dataType n = Some ''Float''
            \<and> parseFloat newValue = NaN \<longrightarrow>
            writeNode srv key newValue now =
              (Returned (failure (ErrorForType ''Invalid float value.'' (Some ''Float''))), srv))
       \<and> (\<forall>r. fst (writeNode srv key newValue now) = Returned r \<and> \<not> success r \<longrightarrow>
            snd (writeNode srv key newValue now) = srv)
       \<and> fst (writeNode srv key newValue now) \<noteq> Threw"
proof -
  have a: "writeNode srv key newValue now = (Returned (failure (NotFoundOrNotVariable key)), srv)"
    if "key \<notin> fst ` set (entries (addressSpace srv))"
    using find_absent [OF that] by (auto simp: writeNode_def)
  have c: "findNode key (addressSpace srv) = FoundNode n"
    if "(key, n) \<in> set (entries (addressSpace srv))"
    using wellFormed_find [OF assms that] .
  have g: "snd (writeNode srv key newValue now) = srv"
    if "fst (writeNode srv key newValue now) = Returned r" "\<not> success r" for r
    using that
    by (auto simp: writeNode_def Let_def split: found.splits if_splits sum.splits member.splits)
  show ?thesis
    using a c g writeNode_returns [OF assms]
    by (auto simp: writeNode_def convert_def)
qed

theorem writeNode_failure_witness:
  "wellFormed (addressSpace (constructor 1 2 3 4 :: nat server))
   \<and> writeNode (constructor 1 2 3 4 :: nat server) ''ns=1;s=Temperature'' ''not-a-number'' 9 =
       (Returned (failure (ErrorForType ''Invalid float value.'' (Some ''Float''))),
        constructor 1 2 3 4)"
proof -
  let ?srv = "constructor 1 2 3 4 :: nat server"
  have wf: "wellFormed (addressSpace ?srv)"
    by (simp add: constructor_def wellFormed_constructed)
  have m: "(''ns=1;s=Temperature'', temperatureNode 1) \<in> set (entries (addressSpace ?srv))"
    by (simp add: constructor_def temperature_entry)
  have c: "parseFloat ''not-a-number'' = NaN"
    by (simp add: parse_defs)
  from writeNode_failure [OF wf, where key = "''ns=1;s=Temperature''" and n = "temperatureNode 1"
      and newValue = "''not-a-number''" and now = 9]
    wf m c show ?thesis
    by (simp add: temperatureNode_def)
qed

lemma of_char_lower:
  "(of_char (lowerChar c) :: nat) =
     (if (65 \<le> (of_char c :: nat) \<and> (of_char c :: nat) \<le> 90)
         \<or> (192 \<le> (of_char c :: nat) \<and> (of_char c :: nat) \<le> 222 \<and> (of_char c :: nat) \<noteq> 215)
      then of_char c + 32 else of_char c)"
  by (auto simp: lowerChar_def Let_def)

lemma lower_letter:
  assumes "(of_char l :: nat) = of_char u + 32" "65 \<le> (of_char u :: nat)" "(of_char u :: nat) \<le> 90"
  shows "lowerChar c = l \<longleftrightarrow> c = l \<or> c = u"
proof -
  have "lowerChar c = l \<longleftrightarrow> (of_char (lowerChar c) :: nat) = of_char l" by simp
  also have "\<dots> \<longleftrightarrow> (of_char c :: nat) = of_char l \<or> (of_char c :: nat) = of_char u"
    using assms by (auto simp: of_char_lower)
  also have "\<dots> \<longleftrightarrow> c = l \<or> c = u" by simp
  finally show ?thesis .
qed

lemma toLowerCase_true: "toLowerCase raw = ''true'' \<longleftrightarrow> spellsTrue raw"
proof -
  have t: "lowerChar c = CHR ''t'' \<longleftrightarrow> c = CHR ''t'' \<or> c = CHR ''T''" for c
    by (rule lower_letter) simp_all
  have r: "lowerChar c = CHR ''r'' \<longleftrightarrow> c = CHR ''r'' \<or> c = CHR ''R''" for c
    by (rule lower_letter) simp_all
  have u: "lowerChar c = CHR ''u'' \<longleftrightarrow> c = CHR ''u'' \<or> c = CHR ''U''" for c
    by (rule lower_letter) simp_all
  have e: "lowerChar c = CHR ''e'' \<longleftrightarrow> c = CHR ''e'' \<or> c = CHR ''E''" for c
    by (rule lower_letter) simp_all
  show ?thesis
    by (auto simp: toLowerCase_def spellsTrue_def letterOf_def map_eq_Cons_conv
        list_all2_Cons2 t r u e)
qed

text \<open>
  C4. The Boolean branch of the coercion yields true exactly when the text spells
  \<open>true\<close> in any mix of cases or is the text \<open>1\<close>, and false for every other text; it
  has no error. So in an address space with unique, plain node ids every write to a
  ReadWrite Boolean Variable succeeds and stores that truth value.
\<close>

theorem writeNode_boolean:
  assumes "wellFormed (addressSpace srv)"
    and "(key, node) \<in> set (entries (addressSpace srv))"
    and "nodeClass node = ''Variable''"
    and "accessLevel node = Some ''ReadWrite''"
    and "dataType node = Some ''Boolean''"
  shows "convert (dataType node) raw = Inr (JBool (spellsTrue raw \<or> raw = ''1''))
       \<and> fst (writeNode srv key raw now) =
           Returned \<lparr>success = True,
                     message = ValueUpdated (browseName node) (JBool (spellsTrue raw \<or> raw = ''1'')),
                     resTimestamp = Some now, resDataType = Some ''Boolean''\<rparr>
       \<and> fst (readNode (snd (writeNode srv key raw now)) key) =
           Some \<lparr>readValue = Some (JBool (spellsTrue raw \<or> raw = ''1'')),
                  readDataType = Some ''Boolean'',
                  readAccessLevel = Some ''ReadWrite'', readTimestamp = Some now\<rparr>"
proof -
  have c: "convert (dataType node) raw = Inr (JBool (spellsTrue raw \<or> raw = ''1''))"
    by (simp add: convert_def assms(5) toLowerCase_true)
  from write_ok [OF assms(1-4) c, of now] c assms(5) show ?thesis by simp
qed

lemma wellFormed_flagServer: "wellFormed (addressSpace flagServer)"
  by (simp add: flagServer_def flagNode_def wellFormed_def plainKey_def objectPrototypeKeys_def
      isDecimalDigit_def)

theorem writeNode_boolean_witness:
  "wellFormed (addressSpace flagServer)
   \<and> fst (readNode (snd (writeNode flagServer ''ns=2;s=Flag'' ''TrUe'' 5)) ''ns=2;s=Flag'') =
       Some \<lparr>readValue = Some (JBool True), readDataType = Some ''Boolean'',
              readAccessLevel = Some ''ReadWrite'', readTimestamp = Some 5\<rparr>
   \<and> fst (readNode (snd (writeNode flagServer ''ns=2;s=Flag'' ''1'' 6)) ''ns=2;s=Flag'') =
       Some \<lparr>readValue = Some (JBool True), readDataType = Some ''Boolean'',
              readAccessLevel = Some ''ReadWrite'', readTimestamp = Some 6\<rparr>
   \<and> fst (writeNode flagServer ''ns=2;s=Flag'' ''yes'' 7) =
       Returned \<lparr>success = True, message = ValueUpdated ''Flag'' (JBool False),
                 resTimestamp = Some 7, resDataType = Some ''Boolean''\<rparr>"
proof -
  have m: "(''ns=2;s=Flag'', flagNode) \<in> set (entries (addressSpace flagServer))"
    by (simp add: flagServer_def flagNode_def)
  have s: "spellsTrue ''TrUe''" "\<not> spellsTrue ''1''" "\<not> spellsTrue ''yes''"
    by (simp_all add: spellsTrue_def letterOf_def)
  note w = writeNode_boolean [OF wellFormed_flagServer m]
  from w [of "''TrUe''" 5] w [of "''1''" 6] w [of "''yes''" 7] s wellFormed_flagServer
  show ?thesis by (simp add: flagNode_def)
qed

section \<open>Browsing\<close>

lemma find_root: "findNode ''ns=0;i=84'' (constructedSpace t1 t2 t3 t4) = FoundNode (snd (hd (constructedSpace t1 t2 t3 t4)))"
  by (simp add: findNode.simps constructedSpace_def getMember_def)

lemma find_folder: "findNode ''ns=1;s=Folder1'' (constructedSpace t1 t2 t3 t4) =
    FoundNode (snd (hd (below (snd (hd (constructedSpace t1 t2 t3 t4))))))"
  by (simp add: findNode.simps constructedSpace_def getMember_def objectPrototypeKeys_def)

text \<open>
  C5. On the constructed address space \<open>browseNodes\<close> without an argument returns the one
  summary of MyDevices, with \<open>hasChildren\<close> true, and \<open>browseNodes\<close> of the folder returns
  the four summaries of Temperature, Pressure, Status and DeviceName in that order, each
  with \<open>hasChildren\<close> false. In every address space with unique, plain node ids the
  summaries are those of the children of the node named, in the order the children
  were inserted; they are none when that node has no children, and none when the id names
  no node. The server is left as it was.
\<close>

theorem browseNodes_order:
  "fst (browseNodes (constructor ta tb tc td :: 'cb server) None) =
     [\<lparr>sumNodeId = ''ns=1;s=Folder1'', sumBrowseName = ''MyDevices'', sumNodeClass = ''Object'',
       sumDataType = None, hasChildren = True, sumValue = None, sumTimestamp = None\<rparr>]
   \<and> fst (browseNodes (constructor ta tb tc td :: 'cb server) (Some ''ns=1;s=Folder1'')) =
     [\<lparr>sumNodeId = ''ns=1;s=Temperature'', sumBrowseName = ''Temperature'',
       sumNodeClass = ''Variable'', sumDataType = Some ''Float'', hasChildren = False,
       sumValue = Some (JNum (Finite (51 / 2))), sumTimestamp = Some ta\<rparr>,
      \<lparr>sumNodeId = ''ns=1;s=Pressure'', sumBrowseName = ''Pressure'',
       sumNodeClass = ''Variable'', sumDataType = Some ''Float'', hasChildren = False,
       sumValue = Some (JNum (roundDouble (506 / 5))), sumTimestamp = Some tb\<rparr>,
      \<lparr>sumNodeId = ''ns=1;s=Status'', sumBrowseName = ''Status'',
       sumNodeClass = ''Variable'', sumDataType = Some ''Boolean'', hasChildren = False,
       sumValue = Some (JBool True), sumTimestamp = Some tc\<rparr>,
      \<lparr>sumNodeId = ''ns=1;s=DeviceName'', sumBrowseName = ''DeviceName'',
       sumNodeClass = ''Variable'', sumDataType = Some ''String'', hasChildren = False,
       sumValue = Some (JStr ''SensorUnit-A''), sumTimestamp = Some td\<rparr>]
   \<and> (wellFormed (addressSpace (srv :: 'cb server))
        \<and> (key, n) \<in> set (entries (addressSpace srv)) \<longrightarrow>
        fst (browseNodes srv (Some key)) = map (\<lambda>(k, child). summarise child) (below n))
   \<and> (wellFormed (addressSpace srv) \<and> (key, n) \<in> set (entries (addressSpace srv))
        \<and> below n = [] \<longrightarrow> fst (browseNodes srv (Some key)) = [])
   \<and> (key \<notin> fst ` set (entries (addressSpace srv)) \<longrightarrow> fst (browseNodes srv (Some key)) = [])
   \<and> snd (browseNodes srv parent) = srv"
proof -
  have a: "fst (browseNodes (constructor ta tb tc td) None) =
     [\<lparr>sumNodeId = ''ns=1;s=Folder1'', sumBrowseName = ''MyDevices'', sumNodeClass = ''Object'',
       sumDataType = None, hasChildren = True, sumValue = None, sumTimestamp = None\<rparr>]"
    by (simp add: browseNodes_def constructor_def find_root)
       (simp add: constructedSpace_def summarise_def)
  have b: "fst (browseNodes (constructor ta tb tc td) (Some ''ns=1;s=Folder1'')) =
     [\<lparr>sumNodeId = ''ns=1;s=Temperature'', sumBrowseName = ''Temperature'',
       sumNodeClass = ''Variable'', sumDataType = Some ''Float'', hasChildren = False,
       sumValue = Some (JNum (Finite (51 / 2))), sumTimestamp = Some ta\<rparr>,
      \<lparr>sumNodeId = ''ns=1;s=Pressure'', sumBrowseName = ''Pressure'',
       sumNodeClass = ''Variable'', sumDataType = Some ''Float'', hasChildren = False,
       sumValue = Some (JNum (roundDouble (506 / 5))), sumTimestamp = Some tb\<rparr>,
      \<lparr>sumNodeId = ''ns=1;s=Status'', sumBrowseName = ''Status'',
       sumNodeClass = ''Variable'', sumDataType = Some ''Boolean'', hasChildren = False,
       sumValue = Some (JBool True), sumTimestamp = Some tc\<rparr>,
      \<lparr>sumNodeId = ''ns=1;s=DeviceName'', sumBrowseName = ''DeviceName'',
       sumNodeClass = ''Variable'', sumDataType = Some ''String'', hasChildren = False,
       sumValue = Some (JStr ''SensorUnit-A''), sumTimestamp = Some td\<rparr>]"
    by (simp add: browseNodes_def constructor_def find_folder)
       (simp add: constructedSpace_def summarise_def below_def)
  have c: "fst (browseNodes srv (Some key)) = map (\<lambda>(k, child). summarise child) (below n)"
    if "wellFormed (addressSpace srv)" "(key, n) \<in> set (entries (addressSpace srv))"
    using wellFormed_find [OF that] by (simp add: browseNodes_def below_def split: option.splits)
  have d: "fst (browseNodes srv (Some key)) = []"
    if "key \<notin> fst ` set (entries (addressSpace srv))"
    using find_absent [OF that] by (auto simp: browseNodes_def)
  have e: "snd (browseNodes srv parent) = srv"
    by (simp add: browseNodes_def split: found.splits option.splits)
  from a b c d e show ?thesis by simp
qed

theorem browseNodes_order_witness:
  "wellFormed (addressSpace (constructor 1 2 3 4 :: nat server))
   \<and> fst (browseNodes (constructor 1 2 3 4 :: nat server) (Some ''ns=1;s=Temperature'')) = []
   \<and> fst (browseNodes (constructor 1 2 3 4 :: nat server) (Some ''ns=1;s=Nothing'')) = []
   \<and> map sumNodeId (fst (browseNodes (constructor 1 2 3 4 :: nat server) (Some ''ns=0;i=84'')))
       = [''ns=1;s=Folder1'']"
proof -
  let ?srv = "constructor 1 2 3 4 :: nat server"
  have wf: "wellFormed (addressSpace ?srv)"
    by (simp add: constructor_def wellFormed_constructed)
  have m: "(''ns=1;s=Temperature'', temperatureNode 1) \<in> set (entries (addressSpace ?srv))"
    by (simp add: constructor_def temperature_entry)
  have r: "(''ns=0;i=84'', snd (hd (constructedSpace 1 2 3 4))) \<in> set (entries (addressSpace ?srv))"
    by (simp add: constructor_def constructedSpace_def)
  have z: "''ns=1;s=Nothing'' \<notin> fst ` set (entries (addressSpace ?srv))"
    by (simp add: constructor_def entries_constructed flip: set_map)
  note b = browseNodes_order [where ta = 1 and tb = 2 and tc = 3 and td = 4 and parent = None
        and srv = ?srv]
  have 1: "fst (browseNodes ?srv (Some ''ns=1;s=Temperature'')) = []"
    using wf m b [where key = "''ns=1;s=Temperature''" and n = "temperatureNode 1"]
    by (simp add: temperatureNode_def below_def)
  have 2: "fst (browseNodes ?srv (Some ''ns=1;s=Nothing'')) = []"
    using z b [where key = "''ns=1;s=Nothing''" and n = "temperatureNode 1"] by simp
  have 3: "map sumNodeId (fst (browseNodes ?srv (Some ''ns=0;i=84''))) = [''ns=1;s=Folder1'']"
    using wf r b [where key = "''ns=0;i=84''" and n = "snd (hd (constructedSpace 1 2 3 4))"]
    by (simp add: constructedSpace_def below_def summarise_def)
  from wf 1 2 3 show ?thesis by simp
qed

section \<open>What a call leaves alone\<close>

lemma simulate_clock [simp]:
  "updateInterval (simulate key v now srv) = updateInterval srv"
  "timers (simulate key v now srv) = timers srv"
  "issued (simulate key v now srv) = issued srv"
  "subscriptions (simulate key v now srv) = subscriptions srv"
  by (simp_all add: simulate_def Let_def split: found.splits member.splits)

lemma tick_clock [simp]:
  "updateInterval (tick srv d) = updateInterval srv"
  "timers (tick srv d) = timers srv"
  "issued (tick srv d) = issued srv"
  "subscriptions (tick srv d) = subscriptions srv"
  by (simp_all add: tick_def)

lemma fold_tick_clock:
  "updateInterval (fold (\<lambda>h s. tick s (env h)) hs srv) = updateInterval srv
   \<and> timers (fold (\<lambda>h s. tick s (env h)) hs srv) = timers srv
   \<and> issued (fold (\<lambda>h s. tick s (env h)) hs srv) = issued srv
   \<and> subscriptions (fold (\<lambda>h s. tick s (env h)) hs srv) = subscriptions srv"
  by (induction hs arbitrary: srv) simp_all

lemma elapse_clock [simp]:
  "updateInterval (elapse srv env) = updateInterval srv"
  "timers (elapse srv env) = timers srv"
  "issued (elapse srv env) = issued srv"
  "subscriptions (elapse srv env) = subscriptions srv"
  using fold_tick_clock [of env "timers srv" srv] by (simp_all add: elapse_def)

lemma writeNode_clock [simp]:
  "updateInterval (snd (writeNode srv key newValue now)) = updateInterval srv"
  "timers (snd (writeNode srv key newValue now)) = timers srv"
  "issued (snd (writeNode srv key newValue now)) = issued srv"
  "subscriptions (snd (writeNode srv key newValue now)) = subscriptions srv"
  by (simp_all add: writeNode_def Let_def split: found.splits sum.splits member.splits)

lemma subscribe_clock [simp]:
  "updateInterval (snd (subscribe srv key cb)) = updateInterval srv"
  "timers (snd (subscribe srv key cb)) = timers srv"
  "issued (snd (subscribe srv key cb)) = issued srv"
  by (simp_all add: subscribe_def split: found.splits)

lemma unsubscribe_clock [simp]:
  "updateInterval (snd (unsubscribe srv key)) = updateInterval srv"
  "timers (snd (unsubscribe srv key)) = timers srv"
  "issued (snd (unsubscribe srv key)) = issued srv"
  by (simp_all add: unsubscribe_def split: member.splits)

lemma readNode_same [simp]: "snd (readNode srv key) = srv"
  by (simp add: readNode_def split: found.splits)

lemma browseNodes_same [simp]: "snd (browseNodes srv parent) = srv"
  by (simp add: browseNodes_def split: found.splits option.splits)

lemma subscribe_other [simp]:
  "addressSpace (snd (subscribe srv key cb)) = addressSpace srv"
  "delivered (snd (subscribe srv key cb)) = delivered srv"
  by (simp_all add: subscribe_def split: found.splits)

lemma unsubscribe_other [simp]:
  "addressSpace (snd (unsubscribe srv key)) = addressSpace srv"
  "delivered (snd (unsubscribe srv key)) = delivered srv"
  by (simp_all add: unsubscribe_def split: member.splits)

lemma start_other [simp]:
  "subscriptions (startDataSimulation srv) = subscriptions srv"
  "delivered (startDataSimulation srv) = delivered srv"
  "addressSpace (startDataSimulation srv) = addressSpace srv"
  by (simp_all add: startDataSimulation_def)

lemma stop_other [simp]:
  "subscriptions (stopDataSimulation srv) = subscriptions srv"
  "delivered (stopDataSimulation srv) = delivered srv"
  "addressSpace (stopDataSimulation srv) = addressSpace srv"
  by (simp_all add: stopDataSimulation_def split: option.splits)

section \<open>Subscriptions\<close>

lemma subscribe_success:
  "success (fst (subscribe srv key cb)) \<longleftrightarrow>
     (\<exists>n. findNode key (addressSpace srv) = FoundNode n \<and> nodeClass n = ''Variable'')"
  by (simp add: subscribe_def failure_def split: found.splits)

lemma subscribe_effect:
  "snd (subscribe srv key cb) =
     (if success (fst (subscribe srv key cb))
      then srv\<lparr>subscriptions := AList.update key cb (subscriptions srv)\<rparr> else srv)"
  by (simp add: subscribe_def failure_def split: found.splits)

lemma unsubscribe_registry:
  "subscriptions (snd (unsubscribe srv key)) = AList.delete key (subscriptions srv)"
  by (auto simp: unsubscribe_def getMember_Undefined delete_id map_of_eq_None_iff
      split: member.splits)

lemma distinct_perform:
  "distinct (map fst (subscriptions srv)) \<Longrightarrow> distinct (map fst (subscriptions (perform srv c)))"
  by (cases c) (simp_all add: subscribe_effect unsubscribe_registry distinct_update distinct_delete)

lemma distinct_performAll:
  "distinct (map fst (subscriptions srv)) \<Longrightarrow>
     distinct (map fst (subscriptions (performAll srv calls)))"
  unfolding performAll_def
  by (induction calls arbitrary: srv) (simp_all add: distinct_perform)

lemma calledOnly_refl: "calledOnly srv srv"
  by (simp add: calledOnly_def)

lemma calledOnly_trans:
  "calledOnly a b \<Longrightarrow> subscriptions b = subscriptions a \<Longrightarrow> calledOnly b c \<Longrightarrow> calledOnly a c"
  unfolding calledOnly_def
  by (elim exE conjE, rule_tac x = "more @ morea" in exI) auto

lemma calledOnly_simulate: "calledOnly srv (simulate key v now srv)"
  by (auto simp: calledOnly_def simulate_def Let_def getMember_Own ran_def
      split: found.splits member.splits)

lemma calledOnly_tick: "calledOnly srv (tick srv d)"
  unfolding tick_def
  by (rule calledOnly_trans [OF calledOnly_simulate _ calledOnly_simulate]) simp

lemma calledOnly_fold:
  "calledOnly srv (fold (\<lambda>h s. tick s (env h)) hs srv)"
proof (induction hs arbitrary: srv)
  case Nil
  show ?case by (simp add: calledOnly_refl)
next
  case (Cons h hs)
  show ?case
    using calledOnly_trans [OF calledOnly_tick _ Cons [of "tick srv (env h)"]] by simp
qed

lemma calledOnly_writeNode: "calledOnly srv (snd (writeNode srv key newValue now))"
  by (auto simp: calledOnly_def writeNode_def Let_def getMember_Own ran_def
      split: found.splits sum.splits member.splits)

lemma calledOnly_perform: "calledOnly srv (perform srv c)"
proof (cases c)
  case (WriteNode k v t)
  then show ?thesis by (simp add: calledOnly_writeNode)
next
  case (Elapse env)
  then show ?thesis by (simp add: elapse_def calledOnly_fold)
next
qed (simp_all add: calledOnly_def)

lemma registry_perform:
  assumes "cb \<notin> ran (map_of (subscriptions srv))" "\<forall>k. c \<noteq> Subscribe k cb"
  shows "cb \<notin> ran (map_of (subscriptions (perform srv c)))"
proof (cases c)
  case (Subscribe k cb')
  with assms(2) have "cb' \<noteq> cb" by auto
  with assms(1) Subscribe show ?thesis
    by (auto simp: subscribe_effect update_conv' ran_def)
next
  case (Unsubscribe k)
  with assms(1) show ?thesis
    by (auto simp: unsubscribe_registry delete_conv' ran_def split: if_splits)
qed (use assms(1) in simp_all)

lemma never_called:
  assumes "cb \<notin> ran (map_of (subscriptions srv))" "\<forall>k. Subscribe k cb \<notin> set calls"
  shows "\<exists>more. delivered (performAll srv calls) = delivered srv @ more \<and> cb \<notin> fst ` set more"
  using assms
proof (induction calls arbitrary: srv)
  case Nil
  then show ?case by (simp add: performAll_def)
next
  case (Cons c calls)
  from Cons.prems(2) have n: "\<forall>k. c \<noteq> Subscribe k cb" "\<forall>k. Subscribe k cb \<notin> set calls" by auto
  from calledOnly_perform [of srv c] obtain more where
    m: "delivered (perform srv c) = delivered srv @ more"
      "fst ` set more \<subseteq> ran (map_of (subscriptions srv))"
    by (auto simp: calledOnly_def)
  have r: "cb \<notin> ran (map_of (subscriptions (perform srv c)))"
    using registry_perform [OF Cons.prems(1) n(1)] .
  from Cons.IH [OF r n(2)] obtain rest where
    i: "delivered (performAll (perform srv c) calls) = delivered (perform srv c) @ rest"
      "cb \<notin> fst ` set rest" by blast
  have p: "performAll srv (c # calls) = performAll (perform srv c) calls"
    by (simp add: performAll_def)
  from m Cons.prems(1) have "cb \<notin> fst ` set more" by blast
  with i m p show ?case by auto
qed

lemma find_variable:
  assumes "wellFormed sp"
  shows "(\<exists>n. findNode key sp = FoundNode n \<and> nodeClass n = ''Variable'') \<longleftrightarrow>
         (\<exists>n. (key, n) \<in> set (entries sp) \<and> nodeClass n = ''Variable'')"
  using wellFormed_find [OF assms] find_sound(1) by blast

text \<open>
  C6. In an address space with unique, plain node ids \<open>subscribe\<close> succeeds exactly when
  the id names a Variable node; a failure leaves the server as it was, a success stores
  the callback under the id in place of the one stored before and changes nothing else.
  The registry of a constructed server holds no id twice, whatever calls are made. After
  a first and a second callback are subscribed to the same id, the registry holds the
  second under it and a write to the node calls the second, once; and the first, when it
  is subscribed to no other id and not subscribed again, is not called by any call that
  follows.
\<close>

theorem subscribe_replaces:
  assumes "wellFormed (addressSpace (srv :: 'cbA server))"
  shows "(success (fst (subscribe srv key cbA)) \<longleftrightarrow>
            (\<exists>n. (key, n) \<in> set (entries (addressSpace srv)) \<and> nodeClass n = ''Variable''))
       \<and> (\<not> success (fst (subscribe srv key cbA)) \<longrightarrow> snd (subscribe srv key cbA) = srv)
       \<and> (success (fst (subscribe srv key cbA)) \<longrightarrow>
            snd (subscribe srv key cbA) =
              srv\<lparr>subscriptions := AList.update key cbA (subscriptions srv)\<rparr>
            \<and> map_of (subscriptions (snd (subscribe srv key cbA))) =
                (map_of (subscriptions srv))(key \<mapsto> cbA))
       \<and> (distinct (map fst (subscriptions srv)) \<longrightarrow>
            distinct (map fst (subscriptions (performAll srv calls))))
       \<and> distinct (map fst (subscriptions
            (performAll (constructor ta tb tc td :: 'cbA server) calls)))
       \<and> (success (fst (subscribe srv key cbA)) \<and> cbA \<noteq> cbB
            \<and> (\<forall>k. k \<noteq> key \<longrightarrow> map_of (subscriptions srv) k \<noteq> Some cbA)
            \<and> (\<forall>k. Subscribe k cbA \<notin> set calls) \<longrightarrow>
            map_of (subscriptions (snd (subscribe (snd (subscribe srv key cbA)) key cbB))) key
              = Some cbB
            \<and> cbA \<notin> fst ` set (drop
                 (length (delivered (snd (subscribe (snd (subscribe srv key cbA)) key cbB))))
                 (delivered (performAll
                    (snd (subscribe (snd (subscribe srv key cbA)) key cbB)) calls))))
       \<and> ((key, node) \<in> set (entries (addressSpace srv)) \<and> nodeClass node = ''Variable''
            \<and> accessLevel node = Some ''ReadWrite''
            \<and> convert (dataType node) newValue = Inr v \<longrightarrow>
            delivered (snd (writeNode (snd (subscribe (snd (subscribe srv key cbA)) key cbB))
                              key newValue now)) =
              delivered srv @ [(cbB, v, now)])"
proof -
  let ?s1 = "snd (subscribe srv key cbA)"
  let ?s2 = "snd (subscribe ?s1 key cbB)"
  have a: "success (fst (subscribe srv key cbA)) \<longleftrightarrow>
            (\<exists>n. (key, n) \<in> set (entries (addressSpace srv)) \<and> nodeClass n = ''Variable'')"
    by (simp add: subscribe_success find_variable [OF assms])
  have b: "\<not> success (fst (subscribe srv key cbA)) \<longrightarrow> ?s1 = srv"
    by (simp add: subscribe_effect)
  have c: "success (fst (subscribe srv key cbA)) \<longrightarrow>
            ?s1 = srv\<lparr>subscriptions := AList.update key cbA (subscriptions srv)\<rparr>
            \<and> map_of (subscriptions ?s1) = (map_of (subscriptions srv))(key \<mapsto> cbA)"
    by (simp add: subscribe_effect update_conv')
  have d: "distinct (map fst (subscriptions srv)) \<longrightarrow>
            distinct (map fst (subscriptions (performAll srv calls)))"
    by (simp add: distinct_performAll)
  have e: "distinct (map fst (subscriptions (performAll (constructor ta tb tc td :: 'cbA server) calls)))"
    by (rule distinct_performAll) (simp add: constructor_def)
  have s2: "success (fst (subscribe ?s1 key cbB)) = success (fst (subscribe srv key cbA))"
    by (simp add: subscribe_success)
  have m2: "map_of (subscriptions ?s2) = (map_of (subscriptions srv))(key \<mapsto> cbB)"
    if "success (fst (subscribe srv key cbA))"
  proof -
    have "subscriptions ?s2 = AList.update key cbB (subscriptions ?s1)"
      using that s2 subscribe_effect [of ?s1 key cbB] by simp
    moreover have "subscriptions ?s1 = AList.update key cbA (subscriptions srv)"
      using that subscribe_effect [of srv key cbA] by simp
    ultimately show ?thesis by (simp add: update_conv')
  qed
  have f: "map_of (subscriptions ?s2) key = Some cbB
            \<and> cbA \<notin> fst ` set (drop (length (delivered ?s2)) (delivered (performAll ?s2 calls)))"
    if h: "success (fst (subscribe srv key cbA))" "cbA \<noteq> cbB"
      "\<forall>k. k \<noteq> key \<longrightarrow> map_of (subscriptions srv) k \<noteq> Some cbA"
      "\<forall>k. Subscribe k cbA \<notin> set calls"
  proof -
    from h(2,3) have "cbA \<notin> ran (map_of (subscriptions ?s2))"
      by (auto simp: m2 [OF h(1)] ran_def split: if_splits)
    from never_called [OF this h(4)] show ?thesis
      by (auto simp: m2 [OF h(1)])
  qed
  have g: "delivered (snd (writeNode ?s2 key newValue now)) = delivered srv @ [(cbB, v, now)]"
    if h: "(key, node) \<in> set (entries (addressSpace srv))" "nodeClass node = ''Variable''"
      "accessLevel node = Some ''ReadWrite''" "convert (dataType node) newValue = Inr v"
  proof -
    from h a have ok: "success (fst (subscribe srv key cbA))" by blast
    have wf2: "wellFormed (addressSpace ?s2)" using assms by simp
    have e2: "(key, node) \<in> set (entries (addressSpace ?s2))" using h(1) by simp
    from write_ok [OF wf2 e2 h(2,3,4), of now] show ?thesis
      by (simp add: m2 [OF ok])
  qed
  from a b c d e f g show ?thesis by blast
qed

theorem subscribe_replaces_witness:
  "wellFormed (addressSpace (constructor 1 2 3 4 :: nat server))
   \<and> success (fst (subscribe (constructor 1 2 3 4 :: nat server) ''ns=1;s=Temperature'' 7))
   \<and> \<not> success (fst (subscribe (constructor 1 2 3 4 :: nat server) ''ns=1;s=Folder1'' 7))
   \<and> map_of (subscriptions (snd (subscribe (snd (subscribe (constructor 1 2 3 4 :: nat server)
          ''ns=1;s=Temperature'' 7)) ''ns=1;s=Temperature'' 8))) ''ns=1;s=Temperature'' = Some 8
   \<and> delivered (snd (writeNode (snd (subscribe (snd (subscribe (constructor 1 2 3 4 :: nat server)
          ''ns=1;s=Temperature'' 7)) ''ns=1;s=Temperature'' 8))
          ''ns=1;s=Temperature'' ''26.75'' 9)) = [(8, JNum (Finite (107 / 4)), 9)]"
proof -
  let ?srv = "constructor 1 2 3 4 :: nat server"
  have wf: "wellFormed (addressSpace ?srv)"
    by (simp add: constructor_def wellFormed_constructed)
  have m: "(''ns=1;s=Temperature'', temperatureNode 1) \<in> set (entries (addressSpace ?srv))"
    by (simp add: constructor_def temperature_entry)
  have c: "convert (dataType (temperatureNode 1)) ''26.75'' = Inr (JNum (Finite (107 / 4)))"
    by (simp add: temperatureNode_def convert_def parse_defs double_examples)
  have v: "nodeClass (temperatureNode 1) = ''Variable''"
    "accessLevel (temperatureNode 1) = Some ''ReadWrite''"
    by (simp_all add: temperatureNode_def)
  have e: "subscriptions ?srv = []" "delivered ?srv = []"
    by (simp_all add: constructor_def)
  note t = subscribe_replaces [OF wf, where key = "''ns=1;s=Temperature''" and cbA = 7 and cbB = 8
      and calls = "[]" and node = "temperatureNode 1" and newValue = "''26.75''"
      and v = "JNum (Finite (107 / 4))" and now = 9 and ta = 1 and tb = 2 and tc = 3 and td = 4]
  from t m v have ok: "success (fst (subscribe ?srv ''ns=1;s=Temperature'' 7))" by blast
  have h: "success (fst (subscribe ?srv ''ns=1;s=Temperature'' 7)) \<and> (7 :: nat) \<noteq> 8
      \<and> (\<forall>k. k \<noteq> ''ns=1;s=Temperature'' \<longrightarrow> map_of (subscriptions ?srv) k \<noteq> Some 7)
      \<and> (\<forall>k. Subscribe k (7 :: nat) \<notin> set [])"
    using ok e by simp
  from t h have r: "map_of (subscriptions (snd (subscribe (snd (subscribe ?srv
          ''ns=1;s=Temperature'' 7)) ''ns=1;s=Temperature'' 8))) ''ns=1;s=Temperature'' = Some 8"
    by blast
  from t m v c have "delivered (snd (writeNode (snd (subscribe (snd (subscribe ?srv
          ''ns=1;s=Temperature'' 7)) ''ns=1;s=Temperature'' 8))
          ''ns=1;s=Temperature'' ''26.75'' 9)) = delivered ?srv @ [(8, JNum (Finite (107 / 4)), 9)]"
    by blast
  with e have d: "delivered (snd (writeNode (snd (subscribe (snd (subscribe ?srv
          ''ns=1;s=Temperature'' 7)) ''ns=1;s=Temperature'' 8))
          ''ns=1;s=Temperature'' ''26.75'' 9)) = [(8, JNum (Finite (107 / 4)), 9)]"
    by simp
  have fm: "\<not> (\<exists>n. (''ns=1;s=Folder1'', n) \<in> set (entries (addressSpace ?srv))
               \<and> nodeClass n = ''Variable'')"
    by (simp add: constructor_def constructedSpace_def)
  from subscribe_replaces [OF wf, where key = "''ns=1;s=Folder1''" and cbA = 7 and cbB = 8
      and calls = "[]" and node = "temperatureNode 1" and newValue = "''26.75''"
      and v = "JNum (Finite (107 / 4))" and now = 9 and ta = 1 and tb = 2 and tc = 3 and td = 4] fm
  have n: "\<not> success (fst (subscribe ?srv ''ns=1;s=Folder1'' 7))" by blast
  from wf ok n r d show ?thesis by blast
qed


lemma subscribed_plain:
  assumes "wellFormed (addressSpace srv)" "success (fst (subscribe srv key cb))"
  shows "key \<notin> set objectPrototypeKeys"
proof -
  from assms(2) obtain n where "findNode key (addressSpace srv) = FoundNode n"
    by (auto simp: subscribe_success)
  then have "(key, n) \<in> set (entries (addressSpace srv))" by (rule find_sound(1))
  with assms(1) show ?thesis by (rule wellFormed_plain)
qed



text \<open>
  The method itself, given the name of a member of \<open>Object.prototype\<close>, finds that member
  in the registry object and returns success without a subscription.
\<close>

lemma unsubscribe_inherited:
  "map_of (subscriptions (constructor ta tb tc td :: 'cb server)) ''constructor'' = None
   \<and> unsubscribe (constructor ta tb tc td :: 'cb server) ''constructor'' =
       (\<lparr>success = True, message = Unsubscribed ''constructor'',
         resTimestamp = None, resDataType = None\<rparr>, constructor ta tb tc td)"
  by (simp add: unsubscribe_def getMember_def constructor_def objectPrototypeKeys_def)

section \<open>Starting and stopping the clock\<close>

lemma start_running: "running (startDataSimulation srv)"
  by (simp add: startDataSimulation_def running_def)

lemma start_idem: "startDataSimulation (startDataSimulation srv) = startDataSimulation srv"
  using start_running [of srv] by (simp add: startDataSimulation_def [of "startDataSimulation srv"])

lemma stop_not_running: "\<not> running (stopDataSimulation srv)"
  by (simp add: stopDataSimulation_def running_def split: option.splits)

lemma stop_unless_running: "\<not> running srv \<Longrightarrow> stopDataSimulation srv = srv"
  by (simp add: stopDataSimulation_def running_def split: option.splits)

lemma stop_idem: "stopDataSimulation (stopDataSimulation srv) = stopDataSimulation srv"
  using stop_not_running stop_unless_running by blast

lemma clockInv_start: "clockInv srv \<Longrightarrow> clockInv (startDataSimulation srv)"
  by (auto simp: clockInv_def startDataSimulation_def running_def split: option.splits)

lemma clockInv_stop: "clockInv srv \<Longrightarrow> clockInv (stopDataSimulation srv)"
  by (auto simp: clockInv_def stopDataSimulation_def split: option.splits)

lemma stop_timers: "clockInv srv \<Longrightarrow> timers (stopDataSimulation srv) = []"
  by (auto simp: clockInv_def stopDataSimulation_def split: option.splits)

lemma start_timers: "clockInv srv \<Longrightarrow> length (timers (startDataSimulation srv)) = 1"
  by (auto simp: clockInv_def startDataSimulation_def running_def split: option.splits)

lemma elapse_no_timers: "timers srv = [] \<Longrightarrow> elapse srv env = srv"
  by (simp add: elapse_def)

lemma clockInv_cong:
  "updateInterval a = updateInterval b \<Longrightarrow> timers a = timers b \<Longrightarrow> issued a = issued b \<Longrightarrow>
     clockInv a = clockInv b"
  by (simp add: clockInv_def split: option.splits)

lemma clockInv_perform: "clockInv srv \<Longrightarrow> clockInv (perform srv c)"
  by (cases c) (simp_all add: clockInv_start clockInv_stop
      clockInv_cong [of "snd (writeNode srv k v t)" srv for k v t]
      clockInv_cong [of "snd (subscribe srv k cb)" srv for k cb]
      clockInv_cong [of "snd (unsubscribe srv k)" srv for k]
      clockInv_cong [of "elapse srv env" srv for env])

lemma clockInv_performAll: "clockInv srv \<Longrightarrow> clockInv (performAll srv calls)"
  unfolding performAll_def
  by (induction calls arbitrary: srv) (simp_all add: clockInv_perform)

lemma clockInv_constructor: "clockInv (constructor ta tb tc td)"
  by (simp add: clockInv_def constructor_def)

text \<open>
  C9. Starting twice is starting once, and starting a running clock changes nothing;
  stopping twice is stopping once, and stopping a clock that is not running changes
  nothing. Neither can fail. Where the timers of the page are the one the server holds,
  which is so after every sequence of calls on a constructed server, a start leaves
  exactly one timer, a stop leaves none, and after one stop or two a period passes
  without a tick.
\<close>

theorem clock_idempotent:
  "startDataSimulation (startDataSimulation srv) = startDataSimulation srv
   \<and> (running srv \<longrightarrow> startDataSimulation srv = srv)
   \<and> stopDataSimulation (stopDataSimulation srv) = stopDataSimulation srv
   \<and> (\<not> running srv \<longrightarrow> stopDataSimulation srv = srv)
   \<and> (clockInv srv \<longrightarrow>
        length (timers (startDataSimulation srv)) = 1
        \<and> timers (stopDataSimulation srv) = []
        \<and> elapse (stopDataSimulation srv) env = stopDataSimulation srv
        \<and> elapse (stopDataSimulation (stopDataSimulation srv)) env = stopDataSimulation srv)
   \<and> clockInv (performAll (constructor ta tb tc td :: 'cb server) calls)"
proof -
  have a: "running srv \<longrightarrow> startDataSimulation srv = srv"
    by (simp add: startDataSimulation_def)
  have b: "clockInv srv \<longrightarrow>
        length (timers (startDataSimulation srv)) = 1
        \<and> timers (stopDataSimulation srv) = []
        \<and> elapse (stopDataSimulation srv) env = stopDataSimulation srv
        \<and> elapse (stopDataSimulation (stopDataSimulation srv)) env = stopDataSimulation srv"
    by (simp add: start_timers stop_timers elapse_no_timers stop_idem)
  have c: "clockInv (performAll (constructor ta tb tc td :: 'cb server) calls)"
    by (rule clockInv_performAll [OF clockInv_constructor])
  from a b c show ?thesis
    by (simp add: start_idem stop_idem stop_unless_running)
qed

theorem clock_idempotent_witness:
  "clockInv (startDataSimulation (constructor 1 2 3 4 :: nat server))
   \<and> running (startDataSimulation (constructor 1 2 3 4 :: nat server))
   \<and> startDataSimulation (startDataSimulation (constructor 1 2 3 4 :: nat server)) =
       startDataSimulation (constructor 1 2 3 4)
   \<and> timers (startDataSimulation (constructor 1 2 3 4 :: nat server)) = [1]
   \<and> timers (stopDataSimulation (startDataSimulation (constructor 1 2 3 4 :: nat server))) = []
   \<and> elapse (stopDataSimulation (stopDataSimulation
         (startDataSimulation (constructor 1 2 3 4 :: nat server)))) (\<lambda>h. halfDraw) =
       stopDataSimulation (startDataSimulation (constructor 1 2 3 4))
   \<and> stopDataSimulation (constructor 1 2 3 4 :: nat server) = constructor 1 2 3 4"
proof -
  let ?srv = "constructor 1 2 3 4 :: nat server"
  have i: "clockInv (startDataSimulation ?srv)"
    by (simp add: clockInv_def startDataSimulation_def running_def constructor_def)
  have r: "running (startDataSimulation ?srv)" "\<not> running ?srv"
    by (simp_all add: startDataSimulation_def running_def constructor_def)
  have t: "timers (startDataSimulation ?srv) = [1]"
    by (simp add: startDataSimulation_def running_def constructor_def)
  note a = clock_idempotent [where srv = "startDataSimulation ?srv" and env = "\<lambda>h. halfDraw"
      and ta = 1 and tb = 2 and tc = 3 and td = 4 and calls = "[]"]
  note b = clock_idempotent [where srv = ?srv and env = "\<lambda>h. halfDraw"
      and ta = 1 and tb = 2 and tc = 3 and td = 4 and calls = "[]"]
  from a i r have 1: "startDataSimulation (startDataSimulation ?srv) = startDataSimulation ?srv"
    "timers (stopDataSimulation (startDataSimulation ?srv)) = []"
    "elapse (stopDataSimulation (stopDataSimulation (startDataSimulation ?srv))) (\<lambda>h. halfDraw) =
       stopDataSimulation (startDataSimulation ?srv)"
    by blast+
  from b r have 2: "stopDataSimulation ?srv = ?srv" by blast
  from i r t 1 2 show ?thesis by blast
qed

section \<open>The tick\<close>

subsection \<open>What \<open>toFixed\<close> writes reads back as the rounded number\<close>

lemma digit_char:
  assumes "n < 10"
  shows "isDecimalDigit (char_of (48 + n))" "digitValue (char_of (48 + n)) = n"
  using assms by (simp_all add: isDecimalDigit_def digitValue_def of_char_of)

lemma digitsOf_digits: "list_all isDecimalDigit (digitsOf n) \<and> digitsOf n \<noteq> []"
proof (induction n rule: digitsOf.induct)
  case (1 n)
  show ?case
  proof (cases "n < 10")
    case True
    then show ?thesis by (simp add: digitsOf.simps [of n] digit_char)
  next
    case False
    with 1 show ?thesis by (simp add: digitsOf.simps [of n] digit_char)
  qed
qed

lemma digitsValue_snoc: "digitsValue (xs @ [c]) = 10 * digitsValue xs + digitValue c"
  by (simp add: digitsValue_def)

lemma digitsValue_digitsOf: "digitsValue (digitsOf n) = n"
proof (induction n rule: digitsOf.induct)
  case (1 n)
  show ?case
  proof (cases "n < 10")
    case True
    then show ?thesis by (simp add: digitsOf.simps [of n] digit_char digitsValue_def)
  next
    case False
    with 1 show ?thesis by (simp add: digitsOf.simps [of n] digit_char digitsValue_snoc)
  qed
qed

lemma digitsValue_zeros: "digitsValue (replicate j (CHR ''0'') @ m) = digitsValue m"
proof -
  have "foldl (\<lambda>a c. 10 * a + digitValue c) 0 (replicate j (CHR ''0'')) = 0"
  proof (induction j)
    case 0
    show ?case by simp
  next
    case (Suc j)
    have "replicate (Suc j) (CHR ''0'') = replicate j (CHR ''0'') @ [CHR ''0'']"
      by (simp add: replicate_append_same)
    with Suc show ?case by (simp add: digitValue_def del: replicate_Suc)
  qed
  then show ?thesis by (simp add: digitsValue_def)
qed

lemma not_digit [simp]:
  "\<not> isDecimalDigit (CHR ''.'')" "\<not> isDecimalDigit (CHR ''e'')" "\<not> isDecimalDigit (CHR ''E'')"
  "\<not> isDecimalDigit (CHR ''+'')" "\<not> isDecimalDigit (CHR ''-'')" "\<not> isDecimalDigit (CHR ''I'')"
  by (simp_all add: isDecimalDigit_def)

lemma digit_plain:
  assumes "isDecimalDigit c"
  shows "\<not> isStrWhiteSpaceChar c" "c \<noteq> CHR ''-''" "c \<noteq> CHR ''+''" "c \<noteq> CHR ''I''"
    "c \<noteq> CHR ''.''" "c \<noteq> CHR ''e''" "c \<noteq> CHR ''E''"
  using assms by (auto simp: isDecimalDigit_def isStrWhiteSpaceChar_def)

lemma takeWhile_run:
  "list_all P a \<Longrightarrow> (r = [] \<or> \<not> P (hd r)) \<Longrightarrow> takeWhile P (a @ r) = a \<and> dropWhile P (a @ r) = r"
  by (cases r) (auto simp: list_all_iff takeWhile_append2 dropWhile_append2 takeWhile_eq_all_conv[THEN iffD2])

lemma parse_point:
  assumes "list_all isDecimalDigit a" "a \<noteq> []" "list_all isDecimalDigit b"
  shows "parseFloat (a @ ''.'' @ b) = roundDouble (of_nat (digitsValue (a @ b)) / 10 ^ length b)"
proof -
  obtain c a' where a: "a = c # a'" using assms(2) by (cases a) auto
  with assms(1) have c: "isDecimalDigit c" by simp
  have r1: "takeWhile isDecimalDigit (a @ CHR ''.'' # b) = a"
    "dropWhile isDecimalDigit (a @ CHR ''.'' # b) = CHR ''.'' # b"
    using takeWhile_run [OF assms(1), of "CHR ''.'' # b"] by simp_all
  have r2: "takeWhile isDecimalDigit b = b" "dropWhile isDecimalDigit b = []"
    using takeWhile_run [OF assms(3), of "[]"] by simp_all
  have i: "take 8 (a @ ''.'' @ b) \<noteq> ''Infinity''"
    using digit_plain(4) [OF c] by (simp add: a)
  have u: "parseUnsigned (a @ ''.'' @ b) =
      roundDouble (of_nat (digitsValue (a @ b)) / 10 ^ length b)"
    using i assms(2) by (simp add: parseUnsigned_def r1 r2 Let_def exponentValue_def scale_def)
  have "parseFloat (a @ ''.'' @ b) = parseUnsigned (a @ ''.'' @ b)"
    using digit_plain(1-3) [OF c] by (simp add: parseFloat_def a)
  with u show ?thesis by simp
qed

lemma toFixed_two:
  assumes "0 \<le> x"
  shows "\<exists>a b. toFixed 2 x = a @ ''.'' @ b \<and> list_all isDecimalDigit a \<and> a \<noteq> []
           \<and> list_all isDecimalDigit b \<and> length b = 2
           \<and> digitsValue (a @ b) = nat \<lfloor>x * 100 + 1 / 2\<rfloor>"
proof -
  define n where "n = nat \<lfloor>x * 100 + 1 / 2\<rfloor>"
  define m where "m = digitsOf n"
  define z where "z = (if length m \<le> 2 then replicate (3 - length m) (CHR ''0'') @ m else m)"
  have dm: "list_all isDecimalDigit m" "m \<noteq> []" "digitsValue m = n"
    using digitsOf_digits [of n] digitsValue_digitsOf [of n] by (simp_all add: m_def)
  have dz: "list_all isDecimalDigit z" "3 \<le> length z" "digitsValue z = n"
    using dm by (auto simp: z_def digitsValue_zeros list_all_iff isDecimalDigit_def)
  have t: "toFixed 2 x = take (length z - 2) z @ ''.'' @ drop (length z - 2) z"
    using assms by (simp add: toFixed_def Let_def n_def m_def z_def)
  show ?thesis
  proof (intro exI conjI)
    show "toFixed 2 x = take (length z - 2) z @ ''.'' @ drop (length z - 2) z" by (rule t)
    show "list_all isDecimalDigit (take (length z - 2) z)"
      using dz(1) by (auto simp: list_all_iff dest: in_set_takeD)
    show "take (length z - 2) z \<noteq> []" using dz(2) by auto
    show "list_all isDecimalDigit (drop (length z - 2) z)"
      using dz(1) by (auto simp: list_all_iff dest: in_set_dropD)
    show "length (drop (length z - 2) z) = 2" using dz(2) by simp
    show "digitsValue (take (length z - 2) z @ drop (length z - 2) z) = nat \<lfloor>x * 100 + 1 / 2\<rfloor>"
      using dz(3) by (simp add: n_def)
  qed
qed

lemma parse_toFixed:
  assumes "0 \<le> x"
  shows "parseFloat (toFixed 2 x) = roundDouble (of_int \<lfloor>x * 100 + 1 / 2\<rfloor> / 100)"
proof -
  from toFixed_two [OF assms] obtain a b where
    ab: "toFixed 2 x = a @ ''.'' @ b" "list_all isDecimalDigit a" "a \<noteq> []"
      "list_all isDecimalDigit b" "length b = 2"
      "digitsValue (a @ b) = nat \<lfloor>x * 100 + 1 / 2\<rfloor>" by blast
  have "0 \<le> \<lfloor>x * 100 + 1 / 2\<rfloor>" using assms by simp
  then have "(of_nat (nat \<lfloor>x * 100 + 1 / 2\<rfloor>) :: rat) = of_int \<lfloor>x * 100 + 1 / 2\<rfloor>"
    by simp
  with parse_point [OF ab(2,3,4)] ab(1,5,6) show ?thesis by simp
qed

lemma point_decimal:
  assumes "list_all isDecimalDigit ds" "list_all isDecimalDigit fs" "ds \<noteq> []"
  shows "decimalLiteral (ds @ CHR ''.'' # fs) (of_nat (digitsValue (ds @ fs)) / 10 ^ length fs)"
proof -
  have "decimalLiteral (spelled ds True fs [])
          (scale (of_nat (digitsValue (ds @ fs)) / 10 ^ length fs) 0)"
    unfolding decimalLiteral_def
    using assms
    by (intro exI [of _ ds] exI [of _ True] exI [of _ fs] exI [of _ "[]"] exI [of _ 0])
       (simp add: exponentPart_def)
  then show ?thesis by (simp add: spelled_def scale_def)
qed

lemma toFixed_decimal:
  assumes "0 \<le> x"
  shows "decimalLiteral (toFixed 2 x) (of_int \<lfloor>x * 100 + 1 / 2\<rfloor> / 100)"
proof -
  from toFixed_two [OF assms] obtain a b where
    ab: "toFixed 2 x = a @ ''.'' @ b" "list_all isDecimalDigit a" "a \<noteq> []"
      "list_all isDecimalDigit b" "length b = 2"
      "digitsValue (a @ b) = nat \<lfloor>x * 100 + 1 / 2\<rfloor>" by blast
  have "0 \<le> \<lfloor>x * 100 + 1 / 2\<rfloor>" using assms by simp
  then have "(of_nat (nat \<lfloor>x * 100 + 1 / 2\<rfloor>) :: rat) = of_int \<lfloor>x * 100 + 1 / 2\<rfloor>"
    by simp
  with point_decimal [OF ab(2,4,3)] ab(1,5,6) show ?thesis by simp
qed

lemma rounded_between:
  fixes x :: rat and lo hi :: int
  assumes "of_int lo \<le> x * 100" "x * 100 \<le> of_int hi"
  shows "lo \<le> \<lfloor>x * 100 + 1 / 2\<rfloor>" "\<lfloor>x * 100 + 1 / 2\<rfloor> \<le> hi"
    "\<bar>of_int \<lfloor>x * 100 + 1 / 2\<rfloor> / 100 - x\<bar> \<le> 1 / 200"
proof -
  show "lo \<le> \<lfloor>x * 100 + 1 / 2\<rfloor>" using assms(1) by (simp add: le_floor_iff)
  have "x * 100 + 1 / 2 < of_int hi + 1" using assms(2) by simp
  then have "x * 100 + 1 / 2 < of_int (hi + 1)" by simp
  then have "\<lfloor>x * 100 + 1 / 2\<rfloor> < hi + 1" by (simp only: floor_less_iff)
  then show "\<lfloor>x * 100 + 1 / 2\<rfloor> \<le> hi" by simp
  define k where "k = \<lfloor>x * 100 + 1 / 2\<rfloor>"
  have "of_int k \<le> x * 100 + 1 / 2" "x * 100 + 1 / 2 < of_int k + 1"
    unfolding k_def by linarith+
  then have "\<bar>of_int k / 100 - x\<bar> \<le> 1 / 200"
    by (intro abs_leI) linarith+
  then show "\<bar>of_int \<lfloor>x * 100 + 1 / 2\<rfloor> / 100 - x\<bar> \<le> 1 / 200"
    by (simp add: k_def)
qed

subsection \<open>One tick\<close>

lemma read_flat:
  assumes "wellFormed (addressSpace srv)"
  shows "fst (readNode srv key) =
    (case map_of (flat (addressSpace srv)) key of None \<Rightarrow> None | Some f \<Rightarrow> readFields f)"
proof (cases "key \<in> fst ` set (entries (addressSpace srv))")
  case True
  then obtain n where n: "(key, n) \<in> set (entries (addressSpace srv))" by auto
  then have "(key, fields n) \<in> set (flat (addressSpace srv))" by (force simp: flat_def)
  moreover have "distinct (map fst (flat (addressSpace srv)))"
    using assms by (simp add: keys_flat wellFormed_def)
  ultimately have "map_of (flat (addressSpace srv)) key = Some (fields n)" by simp
  with wellFormed_find [OF assms n] show ?thesis
    by (cases n) (simp add: readNode_def readFields_def)
next
  case False
  then have "map_of (flat (addressSpace srv)) key = None"
    by (simp add: map_of_eq_None_iff keys_flat [symmetric] flip: set_map)
  with find_absent [OF False] show ?thesis by (auto simp: readNode_def)
qed

lemma map_of_touch:
  "map_of (touch key g xs) k = (if k = key then map_option g (map_of xs k) else map_of xs k)"
  by (induction xs) (auto simp: touch_def)

lemma simulate_effect:
  assumes "wellFormed (addressSpace srv)" "key \<notin> set objectPrototypeKeys"
  shows "flat (addressSpace (simulate key v now srv)) =
           touch key (stamped v now) (flat (addressSpace srv))"
    and "wellFormed (addressSpace (simulate key v now srv))"
    and "delivered (simulate key v now srv) = delivered srv @ notified srv key v now"
    and "map fst (entries (addressSpace (simulate key v now srv))) =
           map fst (entries (addressSpace srv))"
proof -
  let ?sp = "addressSpace srv"
  have fl: "flat (assignNode key (setValue v now) ?sp) = touch key (stamped v now) (flat ?sp)"
    by (rule wellFormed_flat_assign [OF assms(1)])
  have wf: "wellFormed (assignNode key (setValue v now) ?sp)"
    by (rule wellFormed_assign [OF assms(1)])
  have gm: "getMember (subscriptions srv) key =
      (case map_of (subscriptions srv) key of None \<Rightarrow> Undefined | Some c \<Rightarrow> Own c)"
    by (rule getMember_plain [OF assms(2)])
  consider (null) "findNode key ?sp = Null" | (node) n where "findNode key ?sp = FoundNode n"
    using find_not_inherited(1) [OF assms(2), of ?sp] by (cases "findNode key ?sp") auto
  then have a: "flat (addressSpace (simulate key v now srv)) =
           touch key (stamped v now) (flat (addressSpace srv))
     \<and> wellFormed (addressSpace (simulate key v now srv))
     \<and> delivered (simulate key v now srv) = delivered srv @ notified srv key v now"
  proof cases
    case null
    then have "key \<notin> fst ` set (entries ?sp)"
      using find_complete(1) [OF assms(2), of ?sp] by auto
    with null assms(1) show ?thesis
      by (simp add: simulate_def notified_def touch_absent keys_flat flip: set_map)
  next
    case node
    then have "key \<in> fst ` set (entries ?sp)" using find_sound(1) by force
    with node fl wf show ?thesis
      by (simp add: simulate_def notified_def Let_def gm split: option.splits)
  qed
  then show "flat (addressSpace (simulate key v now srv)) =
           touch key (stamped v now) (flat (addressSpace srv))"
    and "wellFormed (addressSpace (simulate key v now srv))"
    and "delivered (simulate key v now srv) = delivered srv @ notified srv key v now"
    by simp_all
  with keys_flat keys_touch show "map fst (entries (addressSpace (simulate key v now srv))) =
           map fst (entries (addressSpace srv))"
    by metis
qed

lemma ids_plain:
  "temperatureId \<notin> set objectPrototypeKeys" "pressureId \<notin> set objectPrototypeKeys"
  by (simp_all add: temperatureId_def pressureId_def objectPrototypeKeys_def)

lemma tick_effect:
  assumes "wellFormed (addressSpace srv)"
  shows "flat (addressSpace (tick srv d)) =
           touch pressureId
             (stamped (JStr (numberToFixed 2 (sample (pressureRandom d) 5 98))) (pressureNow d))
             (touch temperatureId
                (stamped (JStr (numberToFixed 2 (sample (tempRandom d) 10 20))) (tempNow d))
                (flat (addressSpace srv)))"
    and "delivered (tick srv d) =
           delivered srv
           @ notified srv temperatureId (JStr (numberToFixed 2 (sample (tempRandom d) 10 20))) (tempNow d)
           @ notified srv pressureId (JStr (numberToFixed 2 (sample (pressureRandom d) 5 98))) (pressureNow d)"
    and "wellFormed (addressSpace (tick srv d))"
proof -
  let ?vt = "JStr (numberToFixed 2 (sample (tempRandom d) 10 20))"
  let ?vp = "JStr (numberToFixed 2 (sample (pressureRandom d) 5 98))"
  let ?s1 = "simulate temperatureId ?vt (tempNow d) srv"
  have t: "tick srv d = simulate pressureId ?vp (pressureNow d) ?s1"
    by (simp add: tick_def temperatureId_def pressureId_def)
  note a = simulate_effect [OF assms ids_plain(1), of ?vt "tempNow d"]
  note b = simulate_effect [OF a(2) ids_plain(2), of ?vp "pressureNow d"]
  have n: "notified ?s1 pressureId ?vp (pressureNow d) = notified srv pressureId ?vp (pressureNow d)"
    using a(4) by (simp add: notified_def flip: set_map)
  show "flat (addressSpace (tick srv d)) =
           touch pressureId (stamped ?vp (pressureNow d))
             (touch temperatureId (stamped ?vt (tempNow d)) (flat (addressSpace srv)))"
    by (simp add: t a(1) b(1))
  show "delivered (tick srv d) =
           delivered srv @ notified srv temperatureId ?vt (tempNow d)
           @ notified srv pressureId ?vp (pressureNow d)"
    by (simp add: t a(3) b(3) n)
  show "wellFormed (addressSpace (tick srv d))"
    by (simp add: t b(2))
qed

lemma tick_reads:
  assumes "wellFormed (addressSpace srv)"
  shows "fst (readNode (tick srv d) key) =
    (case map_of (flat (addressSpace srv)) key of
       None \<Rightarrow> None
     | Some f \<Rightarrow>
         readFields
           (if key = pressureId
            then stamped (JStr (numberToFixed 2 (sample (pressureRandom d) 5 98))) (pressureNow d) f
            else if key = temperatureId
            then stamped (JStr (numberToFixed 2 (sample (tempRandom d) 10 20))) (tempNow d) f
            else f))"
  using read_flat [OF tick_effect(3) [OF assms], of d key]
  by (simp add: tick_effect(1) [OF assms] map_of_touch temperatureId_def pressureId_def
      split: option.splits)

lemma sample_between:
  assumes "0 \<le> r" "r < 1" "0 \<le> a" "isDouble a" "isDouble b" "isDouble (a + b)"
  shows "\<exists>x. sample r a b = Finite x \<and> b \<le> x \<and> x \<le> a + b"
proof -
  have z: "isDouble 0" using isDouble_int [of 0] by simp
  have "0 \<le> r * a" using assms(1,3) by simp
  moreover have "r * a \<le> 1 * a" using assms(2,3) by (intro mult_right_mono) simp_all
  then have "r * a \<le> a" by simp
  ultimately obtain y where y: "roundDouble (r * a) = Finite y" "0 \<le> y" "y \<le> a"
    using roundDouble_between [OF z assms(4)] by blast
  have "b \<le> y + b" "y + b \<le> a + b" using y(2,3) by simp_all
  then obtain x where x: "roundDouble (y + b) = Finite x" "b \<le> x" "x \<le> a + b"
    using roundDouble_between [OF assms(5,6)] by blast
  show ?thesis using x by (simp add: sample_def y(1))
qed

lemma fixed_reading:
  fixes x :: rat and lo hi :: int
  assumes "of_int lo / 100 \<le> x" "x \<le> of_int hi / 100" "0 \<le> x"
    and "isDouble (of_int lo / 100)" "isDouble (of_int hi / 100)"
  shows "\<exists>k q. decimalLiteral (toFixed 2 x) (of_int k / 100)
           \<and> of_int lo / 100 \<le> (of_int k / 100 :: rat) \<and> (of_int k / 100 :: rat) \<le> of_int hi / 100
           \<and> \<bar>of_int k / 100 - x\<bar> \<le> 1 / 200
           \<and> parseFloat (toFixed 2 x) = Finite q \<and> of_int lo / 100 \<le> q \<and> q \<le> of_int hi / 100"
proof -
  define k where "k = \<lfloor>x * 100 + 1 / 2\<rfloor>"
  have b: "of_int lo \<le> x * 100" "x * 100 \<le> of_int hi"
    using assms(1,2) by (simp_all add: field_simps)
  note r = rounded_between [OF b, folded k_def]
  have kb: "of_int lo / 100 \<le> (of_int k / 100 :: rat)" "(of_int k / 100 :: rat) \<le> of_int hi / 100"
    using r(1,2) by (simp_all add: divide_right_mono)
  from roundDouble_between [OF assms(4,5) kb] obtain q where
    q: "roundDouble (of_int k / 100) = Finite q" "of_int lo / 100 \<le> q" "q \<le> of_int hi / 100"
    by blast
  have "decimalLiteral (toFixed 2 x) (of_int k / 100)"
    unfolding k_def by (rule toFixed_decimal [OF assms(3)])
  moreover have "parseFloat (toFixed 2 x) = Finite q"
    using parse_toFixed [OF assms(3)] q(1) by (simp add: k_def)
  ultimately show ?thesis using kb r(3) q(2,3) by blast
qed

lemma sample_reading:
  fixes r :: rat
  assumes "0 \<le> r" "r < 1"
  shows "\<exists>x k q. sample r 10 20 = Finite x \<and> 20 \<le> x \<and> x \<le> 30
           \<and> decimalLiteral (numberToFixed 2 (sample r 10 20)) (of_int k / 100)
           \<and> 20 \<le> (of_int k / 100 :: rat) \<and> (of_int k / 100 :: rat) \<le> 30
           \<and> \<bar>of_int k / 100 - x\<bar> \<le> 1 / 200
           \<and> parseFloat (numberToFixed 2 (sample r 10 20)) = Finite q \<and> 20 \<le> q \<and> q \<le> 30"
    and "\<exists>x k q. sample r 5 98 = Finite x \<and> 98 \<le> x \<and> x \<le> 103
           \<and> decimalLiteral (numberToFixed 2 (sample r 5 98)) (of_int k / 100)
           \<and> 98 \<le> (of_int k / 100 :: rat) \<and> (of_int k / 100 :: rat) \<le> 103
           \<and> \<bar>of_int k / 100 - x\<bar> \<le> 1 / 200
           \<and> parseFloat (numberToFixed 2 (sample r 5 98)) = Finite q \<and> 98 \<le> q \<and> q \<le> 103"
proof -
  have d: "isDouble 10" "isDouble 20" "isDouble 30" "isDouble 5" "isDouble 98" "isDouble 103"
    using isDouble_int [of 10] isDouble_int [of 20] isDouble_int [of 30] isDouble_int [of 5]
      isDouble_int [of 98] isDouble_int [of 103] by simp_all
  from sample_between [OF assms, of 10 20] d obtain x where
    x: "sample r 10 20 = Finite x" "20 \<le> x" "x \<le> 30" by auto
  from fixed_reading [of 2000 x 3000] x(2,3) d
  show "\<exists>x k q. sample r 10 20 = Finite x \<and> 20 \<le> x \<and> x \<le> 30
           \<and> decimalLiteral (numberToFixed 2 (sample r 10 20)) (of_int k / 100)
           \<and> 20 \<le> (of_int k / 100 :: rat) \<and> (of_int k / 100 :: rat) \<le> 30
           \<and> \<bar>of_int k / 100 - x\<bar> \<le> 1 / 200
           \<and> parseFloat (numberToFixed 2 (sample r 10 20)) = Finite q \<and> 20 \<le> q \<and> q \<le> 30"
    by (simp add: x(1))
  from sample_between [OF assms, of 5 98] d obtain y where
    y: "sample r 5 98 = Finite y" "98 \<le> y" "y \<le> 103" by auto
  from fixed_reading [of 9800 y 10300] y(2,3) d
  show "\<exists>x k q. sample r 5 98 = Finite x \<and> 98 \<le> x \<and> x \<le> 103
           \<and> decimalLiteral (numberToFixed 2 (sample r 5 98)) (of_int k / 100)
           \<and> 98 \<le> (of_int k / 100 :: rat) \<and> (of_int k / 100 :: rat) \<le> 103
           \<and> \<bar>of_int k / 100 - x\<bar> \<le> 1 / 200
           \<and> parseFloat (numberToFixed 2 (sample r 5 98)) = Finite q \<and> 98 \<le> q \<and> q \<le> 103"
    by (simp add: y(1))
qed

lemma digitsOf_four:
  assumes "1000 \<le> n" "n < 10000"
  shows "digitsOf n = [char_of (48 + n div 1000), char_of (48 + n div 100 mod 10),
                       char_of (48 + n div 10 mod 10), char_of (48 + n mod 10)]"
proof -
  have d: "n div 10 div 10 = n div 100" "n div 100 div 10 = n div 1000"
    by (simp_all add: div_mult2_eq [symmetric])
  have "\<not> n < 10" "\<not> n div 10 < 10" "\<not> n div 100 < 10" "n div 1000 < 10"
    using assms by simp_all
  then show ?thesis
    by (simp add: digitsOf.simps [of n] digitsOf.simps [of "n div 10"]
        digitsOf.simps [of "n div 100"] digitsOf.simps [of "n div 1000"] d)
qed

lemma char_digits:
  "char_of (48 :: nat) = CHR ''0''" "char_of (49 :: nat) = CHR ''1''"
  "char_of (50 :: nat) = CHR ''2''" "char_of (51 :: nat) = CHR ''3''"
  "char_of (52 :: nat) = CHR ''4''" "char_of (53 :: nat) = CHR ''5''"
  "char_of (54 :: nat) = CHR ''6''" "char_of (55 :: nat) = CHR ''7''"
  "char_of (56 :: nat) = CHR ''8''" "char_of (57 :: nat) = CHR ''9''"
proof -
  have e: "char_of n = c" if "(of_char c :: nat) = n" for n c
    using that by (metis char_of_char)
  show "char_of (48 :: nat) = CHR ''0''" "char_of (49 :: nat) = CHR ''1''"
    "char_of (50 :: nat) = CHR ''2''" "char_of (51 :: nat) = CHR ''3''"
    "char_of (52 :: nat) = CHR ''4''" "char_of (53 :: nat) = CHR ''5''"
    "char_of (54 :: nat) = CHR ''6''" "char_of (55 :: nat) = CHR ''7''"
    "char_of (56 :: nat) = CHR ''8''" "char_of (57 :: nat) = CHR ''9''"
    by (rule e; simp)+
qed

lemma toFixed_four:
  fixes x :: rat
  assumes "0 \<le> x" "of_nat n \<le> x * 100 + 1 / 2" "x * 100 + 1 / 2 < of_nat n + 1"
    "1000 \<le> n" "n < 10000"
  shows "toFixed 2 x = [char_of (48 + n div 1000), char_of (48 + n div 100 mod 10), CHR ''.'',
                        char_of (48 + n div 10 mod 10), char_of (48 + n mod 10)]"
proof -
  have "\<lfloor>x * 100 + 1 / 2\<rfloor> = int n"
    using assms(2,3) by (intro floor_unique) simp_all
  then have "nat \<lfloor>\<bar>x\<bar> * 10 ^ 2 + 1 / 2\<rfloor> = n" using assms(1) by simp
  with assms(1) show ?thesis
    by (simp add: toFixed_def Let_def digitsOf_four [OF assms(4,5)])
qed

lemma fixed_examples:
  "toFixed 2 (61435 / 2048) = ''30.00''"
  "toFixed 2 25 = ''25.00''"
  "toFixed 2 (397 / 4) = ''99.25''"
  "toFixed 2 98 = ''98.00''"
  using toFixed_four [of "61435 / 2048" 3000] toFixed_four [of 25 2500]
    toFixed_four [of "397 / 4" 9925] toFixed_four [of 98 9800]
  by (simp_all add: char_digits)

lemma flat_entry:
  assumes "wellFormed sp" "(key, n) \<in> set (entries sp)"
  shows "map_of (flat sp) key = Some (fields n)"
proof -
  from assms(2) have "(key, fields n) \<in> set (flat sp)" by (force simp: flat_def)
  moreover have "distinct (map fst (flat sp))"
    using assms(1) by (simp add: keys_flat wellFormed_def)
  ultimately show ?thesis by simp
qed

lemma readFields_stamped:
  "nodeClass n = ''Variable'' \<Longrightarrow>
     readFields (stamped v t (fields n)) =
       Some \<lparr>readValue = Some v, readDataType = dataType n,
              readAccessLevel = accessLevel n, readTimestamp = Some t\<rparr>"
  by (cases n) (simp add: readFields_def stamped_def)

text \<open>
  The sum is rounded before \<open>toFixed\<close> sees it. With \<open>Math.random\<close> returning
  \<open>56294995342131 / 2^52\<close> the product is \<open>1/8 - 2^-51\<close>, the sum rounds to \<open>20.125\<close>, and
  the text is \<open>20.13\<close>, where the sum not rounded would give \<open>20.12\<close>.
\<close>

lemma tick_rounds_sum:
  "sample (56294995342131 / 4503599627370496) 10 20 = Finite (161 / 8)"
  "numberToFixed 2 (sample (56294995342131 / 4503599627370496) 10 20) = ''20.13''"
  "toFixed 2 (56294995342131 / 4503599627370496 * 10 + 20) = ''20.12''"
proof -
  have a: "roundDouble (281474976710655 / 2251799813685248) = Finite (281474976710655 / 2251799813685248)"
    using roundDouble_exact [OF isDouble_dyadic [of 281474976710655 51]] by simp
  have b: "roundDouble (45317471250415615 / 2251799813685248) = Finite (161 / 8)"
    by (simp add: roundDouble_at [of 4] roundHalfEven_near [of 5664683906301952] power_int_minus)
  show s: "sample (56294995342131 / 4503599627370496) 10 20 = Finite (161 / 8)"
    by (simp add: sample_def a b)
  show "numberToFixed 2 (sample (56294995342131 / 4503599627370496) 10 20) = ''20.13''"
    using toFixed_four [of "161 / 8" 2013] by (simp add: s char_digits)
  show "toFixed 2 (56294995342131 / 4503599627370496 * 10 + 20) = ''20.12''"
    using toFixed_four [of "56294995342131 / 4503599627370496 * 10 + 20" 2012] by (simp add: char_digits)
qed

text \<open>
  C1, as the code has it. Let the address space have unique, plain node ids and let the two
  results of \<open>Math.random\<close> lie in \<open>[0, 1)\<close>. The double \<open>Math.random() * 10 + 20\<close> lies in
  the closed interval from 20 to 30, and \<open>Math.random() * 5 + 98\<close> in that from 98 to 103.
  A tick assigns Temperature the text \<open>toFixed(2)\<close> gives on the first and Pressure the
  text it gives on the second: a decimal with two places that denotes a number within
  \<open>1/200\<close> of the double and in the same closed interval, and that \<open>parseFloat\<close> reads
  back as a double in that interval. Each of the two nodes gets the instant read for it as
  its timestamp; every other node reads as before, Status and DeviceName among them; the
  callback subscribed to each of the two ids, if any, is called once with the value and
  the instant; the registry is as it was.
\<close>

theorem tick_assigns:
  assumes "wellFormed (addressSpace srv)"
    and "0 \<le> tempRandom d" and "tempRandom d < 1"
    and "0 \<le> pressureRandom d" and "pressureRandom d < 1"
  shows "(\<exists>x k q. sample (tempRandom d) 10 20 = Finite x \<and> 20 \<le> x \<and> x \<le> 30
            \<and> decimalLiteral (numberToFixed 2 (sample (tempRandom d) 10 20)) (of_int k / 100)
            \<and> 20 \<le> (of_int k / 100 :: rat) \<and> (of_int k / 100 :: rat) \<le> 30
            \<and> \<bar>of_int k / 100 - x\<bar> \<le> 1 / 200
            \<and> parseFloat (numberToFixed 2 (sample (tempRandom d) 10 20)) = Finite q
            \<and> 20 \<le> q \<and> q \<le> 30)
       \<and> (\<exists>x k q. sample (pressureRandom d) 5 98 = Finite x \<and> 98 \<le> x \<and> x \<le> 103
            \<and> decimalLiteral (numberToFixed 2 (sample (pressureRandom d) 5 98)) (of_int k / 100)
            \<and> 98 \<le> (of_int k / 100 :: rat) \<and> (of_int k / 100 :: rat) \<le> 103
            \<and> \<bar>of_int k / 100 - x\<bar> \<le> 1 / 200
            \<and> parseFloat (numberToFixed 2 (sample (pressureRandom d) 5 98)) = Finite q
            \<and> 98 \<le> q \<and> q \<le> 103)
       \<and> ((temperatureId, n) \<in> set (entries (addressSpace srv)) \<and> nodeClass n = ''Variable'' \<longrightarrow>
            fst (readNode (tick srv d) temperatureId) =
              Some \<lparr>readValue = Some (JStr (numberToFixed 2 (sample (tempRandom d) 10 20))),
                     readDataType = dataType n, readAccessLevel = accessLevel n,
                     readTimestamp = Some (tempNow d)\<rparr>)
       \<and> ((pressureId, p) \<in> set (entries (addressSpace srv)) \<and> nodeClass p = ''Variable'' \<longrightarrow>
            fst (readNode (tick srv d) pressureId) =
              Some \<lparr>readValue = Some (JStr (numberToFixed 2 (sample (pressureRandom d) 5 98))),
                     readDataType = dataType p, readAccessLevel = accessLevel p,
                     readTimestamp = Some (pressureNow d)\<rparr>)
       \<and> (key \<noteq> temperatureId \<and> key \<noteq> pressureId \<longrightarrow>
            fst (readNode (tick srv d) key) = fst (readNode srv key))
       \<and> flat (addressSpace (tick srv d)) =
            touch pressureId
              (stamped (JStr (numberToFixed 2 (sample (pressureRandom d) 5 98))) (pressureNow d))
              (touch temperatureId
                 (stamped (JStr (numberToFixed 2 (sample (tempRandom d) 10 20))) (tempNow d))
                 (flat (addressSpace srv)))
       \<and> delivered (tick srv d) =
            delivered srv
            @ notified srv temperatureId (JStr (numberToFixed 2 (sample (tempRandom d) 10 20))) (tempNow d)
            @ notified srv pressureId (JStr (numberToFixed 2 (sample (pressureRandom d) 5 98))) (pressureNow d)
       \<and> subscriptions (tick srv d) = subscriptions srv"
proof -
  note r = tick_reads [OF assms(1), of d]
  have neq: "temperatureId \<noteq> pressureId" by (simp add: temperatureId_def pressureId_def)
  have a: "fst (readNode (tick srv d) temperatureId) =
              Some \<lparr>readValue = Some (JStr (numberToFixed 2 (sample (tempRandom d) 10 20))),
                     readDataType = dataType n, readAccessLevel = accessLevel n,
                     readTimestamp = Some (tempNow d)\<rparr>"
    if "(temperatureId, n) \<in> set (entries (addressSpace srv))" "nodeClass n = ''Variable''"
    using neq by (simp add: r flat_entry [OF assms(1) that(1)] readFields_stamped [OF that(2)])
  have b: "fst (readNode (tick srv d) pressureId) =
              Some \<lparr>readValue = Some (JStr (numberToFixed 2 (sample (pressureRandom d) 5 98))),
                     readDataType = dataType p, readAccessLevel = accessLevel p,
                     readTimestamp = Some (pressureNow d)\<rparr>"
    if "(pressureId, p) \<in> set (entries (addressSpace srv))" "nodeClass p = ''Variable''"
    by (simp add: r flat_entry [OF assms(1) that(1)] readFields_stamped [OF that(2)])
  have c: "fst (readNode (tick srv d) key) = fst (readNode srv key)"
    if "key \<noteq> temperatureId" "key \<noteq> pressureId"
    using that by (simp add: r read_flat [OF assms(1)] split: option.splits)
  from sample_reading(1) [OF assms(2,3)] sample_reading(2) [OF assms(4,5)] a b c
    tick_effect(1,2) [OF assms(1), of d]
  show ?thesis by simp
qed

lemma flat_constructed:
  "flat (constructedSpace ta tb tc td) =
     [(''ns=0;i=84'', (''Objects'', ''ns=0;i=84'', ''Object'', None, None, None, None)),
      (''ns=1;s=Folder1'', (''MyDevices'', ''ns=1;s=Folder1'', ''Object'', None, None, None, None)),
      (''ns=1;s=Temperature'', (''Temperature'', ''ns=1;s=Temperature'', ''Variable'',
         Some ''Float'', Some (JNum (Finite (51 / 2))), Some ''ReadWrite'', Some ta)),
      (''ns=1;s=Pressure'', (''Pressure'', ''ns=1;s=Pressure'', ''Variable'',
         Some ''Float'', Some (JNum (roundDouble (506 / 5))), Some ''ReadWrite'', Some tb)),
      (''ns=1;s=Status'', (''Status'', ''ns=1;s=Status'', ''Variable'',
         Some ''Boolean'', Some (JBool True), Some ''ReadOnly'', Some tc)),
      (''ns=1;s=DeviceName'', (''DeviceName'', ''ns=1;s=DeviceName'', ''Variable'',
         Some ''String'', Some (JStr ''SensorUnit-A''), Some ''ReadOnly'', Some td))]"
  by (simp add: flat_def constructedSpace_def)

text \<open>
  C1 as stated fails: with \<open>Math.random\<close> returning \<open>4095/4096\<close>, which is below 1, the
  value read back from Temperature after the tick is the text \<open>30.00\<close>. It is not a number,
  and the number it denotes is not below 30.
\<close>

theorem tick_stores_thirty:
  "(0 :: rat) \<le> tempRandom topDraw \<and> tempRandom topDraw < 1
   \<and> fst (readNode (tick (constructor 1 2 3 4 :: nat server) topDraw) ''ns=1;s=Temperature'') =
       Some \<lparr>readValue = Some (JStr ''30.00''), readDataType = Some ''Float'',
              readAccessLevel = Some ''ReadWrite'', readTimestamp = Some 5\<rparr>
   \<and> parseFloat ''30.00'' = Finite 30"
proof -
  let ?srv = "constructor 1 2 3 4 :: nat server"
  have wf: "wellFormed (addressSpace ?srv)"
    by (simp add: constructor_def wellFormed_constructed)
  have "fst (readNode (tick ?srv topDraw) ''ns=1;s=Temperature'') =
       Some \<lparr>readValue = Some (JStr ''30.00''), readDataType = Some ''Float'',
              readAccessLevel = Some ''ReadWrite'', readTimestamp = Some 5\<rparr>"
    unfolding tick_reads [OF wf]
    by (simp add: constructor_def flat_constructed pressureId_def temperatureId_def
        topDraw_def sample_def double_examples fixed_examples readFields_def stamped_def)
  moreover have "parseFloat ''30.00'' = Finite 30"
    by (simp add: parse_defs double_examples)
  ultimately show ?thesis by (simp add: topDraw_def)
qed

theorem tick_assigns_witness:
  "wellFormed (addressSpace listeningServer)
   \<and> 0 \<le> tempRandom halfDraw \<and> tempRandom halfDraw < 1
   \<and> 0 \<le> pressureRandom halfDraw \<and> pressureRandom halfDraw < 1
   \<and> fst (readNode (tick listeningServer halfDraw) temperatureId) =
       Some \<lparr>readValue = Some (JStr ''25.00''), readDataType = Some ''Float'',
              readAccessLevel = Some ''ReadWrite'', readTimestamp = Some 5\<rparr>
   \<and> fst (readNode (tick listeningServer halfDraw) pressureId) =
       Some \<lparr>readValue = Some (JStr ''99.25''), readDataType = Some ''Float'',
              readAccessLevel = Some ''ReadWrite'', readTimestamp = Some 6\<rparr>
   \<and> fst (readNode (tick listeningServer halfDraw) ''ns=1;s=Status'') =
       fst (readNode listeningServer ''ns=1;s=Status'')
   \<and> delivered (tick listeningServer halfDraw) = [(7, JStr ''25.00'', 5)]"
proof -
  have sp: "addressSpace listeningServer = constructedSpace 1 2 3 4"
    "subscriptions listeningServer = [(''ns=1;s=Temperature'', 7)]"
    "delivered listeningServer = []"
    by (simp_all add: listeningServer_def constructor_def)
  have wf: "wellFormed (addressSpace listeningServer)"
    by (simp add: sp wellFormed_constructed)
  have h: "0 \<le> tempRandom halfDraw" "tempRandom halfDraw < 1"
    "0 \<le> pressureRandom halfDraw" "pressureRandom halfDraw < 1"
    by (simp_all add: halfDraw_def)
  have v: "numberToFixed 2 (sample (tempRandom halfDraw) 10 20) = ''25.00''"
    "numberToFixed 2 (sample (pressureRandom halfDraw) 5 98) = ''99.25''"
    "tempNow halfDraw = 5" "pressureNow halfDraw = 6"
    by (simp_all add: halfDraw_def sample_def double_examples fixed_examples)
  have m: "(temperatureId, temperatureNode 1) \<in> set (entries (addressSpace listeningServer))"
    "(pressureId, pressureNode 2) \<in> set (entries (addressSpace listeningServer))"
    "nodeClass (temperatureNode 1) = ''Variable''" "nodeClass (pressureNode 2) = ''Variable''"
    by (simp_all add: sp constructedSpace_def temperatureNode_def pressureNode_def
        temperatureId_def pressureId_def)
  have k: "''ns=1;s=Status'' \<noteq> temperatureId" "''ns=1;s=Status'' \<noteq> pressureId"
    by (simp_all add: temperatureId_def pressureId_def)
  have n: "notified listeningServer temperatureId (JStr ''25.00'') 5 = [(7, JStr ''25.00'', 5)]"
    "notified listeningServer pressureId (JStr ''99.25'') 6 = []"
    by (simp_all add: notified_def sp entries_constructed temperatureId_def pressureId_def
        flip: set_map)
  note t = tick_assigns [OF wf h, where n = "temperatureNode 1" and p = "pressureNode 2"
      and key = "''ns=1;s=Status''"]
  from t m have 1: "fst (readNode (tick listeningServer halfDraw) temperatureId) =
       Some \<lparr>readValue = Some (JStr ''25.00''), readDataType = Some ''Float'',
              readAccessLevel = Some ''ReadWrite'', readTimestamp = Some 5\<rparr>"
    by (simp add: v temperatureNode_def)
  from t m have 2: "fst (readNode (tick listeningServer halfDraw) pressureId) =
       Some \<lparr>readValue = Some (JStr ''99.25''), readDataType = Some ''Float'',
              readAccessLevel = Some ''ReadWrite'', readTimestamp = Some 6\<rparr>"
    by (simp add: v pressureNode_def)
  from t k have 3: "fst (readNode (tick listeningServer halfDraw) ''ns=1;s=Status'') =
       fst (readNode listeningServer ''ns=1;s=Status'')"
    by blast
  from t have 4: "delivered (tick listeningServer halfDraw) = [(7, JStr ''25.00'', 5)]"
    by (simp add: v n sp)
  from wf h 1 2 3 4 show ?thesis by blast
qed

section \<open>The texts a Float accepts\<close>

lemma takeWhile_digits: "list_all isDecimalDigit (takeWhile isDecimalDigit xs)"
  by (simp add: list_all_iff) (meson set_takeWhileD)

lemma expText_prefix: "\<exists>rest. r = expText r @ rest"
proof (cases r)
  case Nil
  then show ?thesis by (simp add: expText_def)
next
  case (Cons c r1)
  show ?thesis
  proof (cases r1)
    case Nil
    with Cons show ?thesis by (simp add: expText_def)
  next
    case (Cons d r2)
    have a: "\<exists>rest. r2 = takeWhile isDecimalDigit r2 @ rest"
      "\<exists>rest. d # r2 = takeWhile isDecimalDigit (d # r2) @ rest"
      by (metis takeWhile_dropWhile_id)+
    with Cons \<open>r = c # r1\<close> show ?thesis
      by (auto simp: expText_def)
  qed
qed

lemma expText_part: "exponentPart (expText r) (exponentValue r)"
proof (cases r)
  case Nil
  then show ?thesis by (simp add: expText_def exponentValue_def exponentPart_def)
next
  case (Cons c r1)
  note r = Cons
  show ?thesis
  proof (cases "c = CHR ''e'' \<or> c = CHR ''E''")
    case False
    with r show ?thesis by (simp add: expText_def exponentValue_def exponentPart_def)
  next
    case True
    note c = True
    show ?thesis
    proof (cases r1)
      case Nil
      with r c show ?thesis by (auto simp: expText_def exponentValue_def exponentPart_def)
    next
      case (Cons d r2)
      show ?thesis
      proof (cases "d = CHR ''+'' \<or> d = CHR ''-''")
        case True
        show ?thesis
        proof (cases "takeWhile isDecimalDigit r2 = []")
          case True
          with r c Cons \<open>d = CHR ''+'' \<or> d = CHR ''-''\<close> show ?thesis
            by (auto simp: expText_def exponentValue_def exponentPart_def digitsValue_def)
        next
          case False
          have "exponentPart (c # [d] @ takeWhile isDecimalDigit r2)
                  (if d = CHR ''+'' then int (digitsValue (takeWhile isDecimalDigit r2))
                   else - int (digitsValue (takeWhile isDecimalDigit r2)))"
            unfolding exponentPart_def
            using c True False takeWhile_digits [of r2]
            by (intro disjI2 exI [of _ c] exI [of _ "[d]"] exI [of _ "takeWhile isDecimalDigit r2"])
               auto
          with r c Cons True False show ?thesis
            by (auto simp: expText_def exponentValue_def)
        qed
      next
        case False
        note d = False
        show ?thesis
        proof (cases "takeWhile isDecimalDigit r1 = []")
          case True
          with r c Cons d show ?thesis
            by (auto simp: expText_def exponentValue_def exponentPart_def digitsValue_def)
        next
          case False
          have "exponentPart (c # [] @ takeWhile isDecimalDigit r1)
                  (int (digitsValue (takeWhile isDecimalDigit r1)))"
            unfolding exponentPart_def
            using c False takeWhile_digits [of r1]
            by (intro disjI2 exI [of _ c] exI [of _ "[]"] exI [of _ "takeWhile isDecimalDigit r1"])
               auto
          with r c Cons d False show ?thesis
            by (auto simp: expText_def exponentValue_def)
        qed
      qed
    qed
  qed
qed

lemma run_append:
  "list_all P ds \<Longrightarrow> takeWhile P (ds @ rest) = ds @ takeWhile P rest"
  "list_all P ds \<Longrightarrow> dropWhile P (ds @ rest) = dropWhile P rest"
  by (simp_all add: list_all_iff takeWhile_append2 dropWhile_append2)

lemma expText_covers:
  assumes "exponentPart ex k"
  shows "length ex \<le> length (expText (ex @ rest))"
proof (cases "ex = []")
  case True
  then show ?thesis by simp
next
  case False
  with assms obtain c sg es where
    e: "ex = c # sg @ es" "c = CHR ''e'' \<or> c = CHR ''E''" "es \<noteq> []" "list_all isDecimalDigit es"
      "sg = [] \<or> sg = ''+'' \<or> sg = ''-''"
    by (auto simp: exponentPart_def)
  from e(3) obtain d es' where es: "es = d # es'" by (cases es) auto
  with e(4) have d: "isDecimalDigit d" by simp
  have t: "takeWhile isDecimalDigit (es @ rest) = es @ takeWhile isDecimalDigit rest"
    by (rule run_append(1) [OF e(4)])
  from e(5) show ?thesis
  proof (elim disjE)
    assume "sg = []"
    with e(1,2) es d digit_plain(2,3) [OF d] t show ?thesis
      by (auto simp: expText_def)
  next
    assume "sg = ''+''"
    with e(1,2) es t show ?thesis by (auto simp: expText_def)
  next
    assume "sg = ''-''"
    with e(1,2) es t show ?thesis by (auto simp: expText_def)
  qed
qed

lemma scanned_prefix: "\<exists>rest. t = scanned t @ rest"
proof -
  define r1 where "r1 = dropWhile isDecimalDigit t"
  define ip where "ip = takeWhile isDecimalDigit t"
  have t: "ip @ r1 = t" by (simp add: r1_def ip_def)
  show ?thesis
  proof (cases "r1 \<noteq> [] \<and> hd r1 = CHR ''.''")
    case True
    then obtain r1' where r: "r1 = CHR ''.'' # r1'" by (cases r1) auto
    define fp where "fp = takeWhile isDecimalDigit r1'"
    define r2 where "r2 = dropWhile isDecimalDigit r1'"
    obtain rest where e: "expText r2 @ rest = r2"
      using expText_prefix [of r2] by metis
    have f: "fp @ r2 = r1'" by (simp add: fp_def r2_def)
    have "scanned t = ip @ CHR ''.'' # fp @ expText r2"
      using r by (simp add: scanned_def Let_def spelled_def fp_def r2_def flip: r1_def ip_def)
    then have "scanned t @ rest = ip @ CHR ''.'' # fp @ r2" using e by simp
    also have "\<dots> = t" using f r t by simp
    finally show ?thesis by metis
  next
    case False
    obtain rest where e: "expText r1 @ rest = r1"
      using expText_prefix [of r1] by metis
    have "scanned t = ip @ expText r1"
      using False by (auto simp: scanned_def Let_def spelled_def simp flip: r1_def ip_def)
    then have "scanned t @ rest = ip @ r1" using e by simp
    with t show ?thesis by metis
  qed
qed

lemma literal_shape:
  assumes "decimalLiteral p q" "t = p @ r"
  shows "(takeWhile isDecimalDigit t \<noteq> []
          \<or> (dropWhile isDecimalDigit t \<noteq> [] \<and> hd (dropWhile isDecimalDigit t) = CHR ''.''
              \<and> takeWhile isDecimalDigit (tl (dropWhile isDecimalDigit t)) \<noteq> []))
       \<and> length p \<le> length (scanned t)"
proof -
  from assms(1) obtain ds pointed fs ex k where
    l: "p = spelled ds pointed fs ex" "list_all isDecimalDigit ds" "list_all isDecimalDigit fs"
      "pointed \<or> fs = []" "ds \<noteq> [] \<or> fs \<noteq> []" "exponentPart ex k"
    by (auto simp: decimalLiteral_def)
  have exhd: "\<not> isDecimalDigit (hd ex) \<and> hd ex \<noteq> CHR ''.''" if "ex \<noteq> []"
    using that l(6) by (auto simp: exponentPart_def)
  define w where "w = ex @ r"
  have cover: "length ex \<le> length (expText w)"
    unfolding w_def by (rule expText_covers [OF l(6)])
  have whd: "takeWhile isDecimalDigit w = [] \<and> dropWhile isDecimalDigit w = w
             \<and> w \<noteq> [] \<and> hd w \<noteq> CHR ''.''" if "ex \<noteq> []"
  proof -
    from that obtain c ex' where c: "ex = c # ex'" by (cases ex) auto
    with exhd [OF that] show ?thesis by (simp add: w_def)
  qed
  show ?thesis
  proof (cases pointed)
    case True
    have t: "t = ds @ CHR ''.'' # fs @ w"
      using assms(2) l(1) True by (simp add: spelled_def w_def)
    have ip: "takeWhile isDecimalDigit t = ds" "dropWhile isDecimalDigit t = CHR ''.'' # fs @ w"
      using run_append [OF l(2), of "CHR ''.'' # fs @ w"] by (simp_all add: t)
    have fp: "takeWhile isDecimalDigit (fs @ w) = fs @ takeWhile isDecimalDigit w"
      "dropWhile isDecimalDigit (fs @ w) = dropWhile isDecimalDigit w"
      using run_append [OF l(3), of w] by simp_all
    have sc: "scanned t = ds @ CHR ''.'' # (fs @ takeWhile isDecimalDigit w)
                @ expText (dropWhile isDecimalDigit w)"
      by (simp add: scanned_def Let_def ip fp spelled_def)
    have p: "length p = length ds + 1 + length fs + length ex"
      using l(1) True by (simp add: spelled_def)
    have "length p \<le> length (scanned t)"
    proof (cases "ex = []")
      case True
      with p sc show ?thesis by simp
    next
      case False
      with whd cover p sc show ?thesis by simp
    qed
    with l(5) ip fp show ?thesis by auto
  next
    case False
    with l(4,5) have fs: "fs = []" "ds \<noteq> []" by auto
    have t: "t = ds @ w"
      using assms(2) l(1) False by (simp add: spelled_def w_def)
    have ip: "takeWhile isDecimalDigit t = ds @ takeWhile isDecimalDigit w"
      "dropWhile isDecimalDigit t = dropWhile isDecimalDigit w"
      using run_append [OF l(2), of w] by (simp_all add: t)
    have p: "length p = length ds + length ex"
      using l(1) False by (simp add: spelled_def)
    have "length p \<le> length (scanned t)"
    proof (cases "ex = []")
      case True
      with p show ?thesis by (simp add: scanned_def Let_def ip spelled_def)
    next
      case False
      with whd cover p show ?thesis
        by (simp add: scanned_def Let_def ip spelled_def)
    qed
    with fs ip show ?thesis by simp
  qed
qed

lemma scanned_literal:
  assumes "take 8 t \<noteq> ''Infinity''" "parseUnsigned t \<noteq> NaN"
  shows "\<exists>q. parseUnsigned t = roundDouble q \<and> decimalLiteral (scanned t) q"
proof -
  define ip where "ip = takeWhile isDecimalDigit t"
  define r1 where "r1 = dropWhile isDecimalDigit t"
  define pointed where "pointed \<longleftrightarrow> r1 \<noteq> [] \<and> hd r1 = CHR ''.''"
  define fp where "fp = (if pointed then takeWhile isDecimalDigit (tl r1) else [])"
  define r2 where "r2 = (if pointed then dropWhile isDecimalDigit (tl r1) else r1)"
  define q where "q = scale (of_nat (digitsValue (ip @ fp)) / 10 ^ length fp) (exponentValue r2)"
  have pu: "parseUnsigned t = (if ip = [] \<and> fp = [] then NaN else roundDouble q)"
    using assms(1)
    by (simp add: parseUnsigned_def Let_def ip_def r1_def pointed_def fp_def r2_def q_def)
  with assms(2) have ne: "ip \<noteq> [] \<or> fp \<noteq> []" and v: "parseUnsigned t = roundDouble q"
    by (auto split: if_splits)
  have sc: "scanned t = spelled ip pointed fp (expText r2)"
    by (simp add: scanned_def Let_def ip_def r1_def pointed_def fp_def r2_def)
  have "decimalLiteral (spelled ip pointed fp (expText r2)) q"
    unfolding decimalLiteral_def
  proof (intro exI conjI)
    show "spelled ip pointed fp (expText r2) = spelled ip pointed fp (expText r2)" ..
    show "list_all isDecimalDigit ip" by (simp add: ip_def takeWhile_digits)
    show "list_all isDecimalDigit fp" by (simp add: fp_def takeWhile_digits)
    show "pointed \<or> fp = []" by (simp add: fp_def)
    show "ip \<noteq> [] \<or> fp \<noteq> []" by (rule ne)
    show "exponentPart (expText r2) (exponentValue r2)" by (rule expText_part)
    show "q = scale (of_nat (digitsValue (ip @ fp)) / 10 ^ length fp) (exponentValue r2)"
      by (rule q_def)
  qed
  with v sc show ?thesis by auto
qed

lemma infinity_text:
  "take 8 t = ''Infinity'' \<longleftrightarrow> (\<exists>r. t = ''Infinity'' @ r)"
proof
  assume "take 8 t = ''Infinity''"
  then have "t = ''Infinity'' @ drop 8 t" by (metis append_take_drop_id)
  then show "\<exists>r. t = ''Infinity'' @ r" ..
next
  assume "\<exists>r. t = ''Infinity'' @ r"
  then show "take 8 t = ''Infinity''" by auto
qed

lemma taken_bound:
  assumes "t = p @ r" "unsignedLiteral p v"
  shows "length p \<le> length (taken t)" "parseUnsigned t \<noteq> NaN"
proof -
  from assms(2) consider "p = ''Infinity''" | q where "decimalLiteral p q"
    by (auto simp: unsignedLiteral_def)
  then have "length p \<le> length (taken t) \<and> parseUnsigned t \<noteq> NaN"
  proof cases
    case 1
    with assms(1) have "take 8 t = ''Infinity''" by simp
    with 1 show ?thesis by (simp add: taken_def parseUnsigned_def)
  next
    case 2
    note s = literal_shape [OF 2 assms(1)]
    show ?thesis
    proof (cases "take 8 t = ''Infinity''")
      case True
      then obtain r' where "t = ''Infinity'' @ r'" by (auto simp: infinity_text)
      with s show ?thesis by (simp add: isDecimalDigit_def)
    next
      case False
      with s show ?thesis
        by (auto simp: taken_def parseUnsigned_def Let_def)
    qed
  qed
  then show "length p \<le> length (taken t)" "parseUnsigned t \<noteq> NaN" by simp_all
qed

lemma taken_literal:
  assumes "parseUnsigned t \<noteq> NaN"
  shows "unsignedLiteral (taken t) (parseUnsigned t)" "\<exists>r. t = taken t @ r"
proof -
  have "unsignedLiteral (taken t) (parseUnsigned t) \<and> (\<exists>r. t = taken t @ r)"
  proof (cases "take 8 t = ''Infinity''")
    case True
    then show ?thesis
      by (auto simp: taken_def parseUnsigned_def unsignedLiteral_def infinity_text)
  next
    case False
    from scanned_literal [OF False assms] scanned_prefix [of t] False show ?thesis
      by (auto simp: taken_def unsignedLiteral_def)
  qed
  then show "unsignedLiteral (taken t) (parseUnsigned t)" "\<exists>r. t = taken t @ r" by simp_all
qed

lemma unsigned_start:
  assumes "unsignedLiteral u w"
  shows "\<exists>c u'. u = c # u' \<and> c \<noteq> CHR ''+'' \<and> c \<noteq> CHR ''-'' \<and> \<not> isStrWhiteSpaceChar c"
proof -
  from assms consider "u = ''Infinity''" | q where "decimalLiteral u q"
    by (auto simp: unsignedLiteral_def)
  then show ?thesis
  proof cases
    case 1
    then show ?thesis by (simp add: isStrWhiteSpaceChar_def)
  next
    case 2
    then obtain ds pointed fs ex where
      l: "u = spelled ds pointed fs ex" "list_all isDecimalDigit ds"
        "pointed \<or> fs = []" "ds \<noteq> [] \<or> fs \<noteq> []"
      by (auto simp: decimalLiteral_def)
    show ?thesis
    proof (cases ds)
      case Nil
      with l show ?thesis by (auto simp: spelled_def isStrWhiteSpaceChar_def)
    next
      case (Cons d ds')
      with l(2) have "isDecimalDigit d" by simp
      from digit_plain(1-3) [OF this] l(1) Cons show ?thesis by (simp add: spelled_def)
    qed
  qed
qed

lemma negate_NaN [simp]: "negate v = NaN \<longleftrightarrow> v = NaN"
  by (cases v) simp_all

lemma consumed_bound:
  assumes "literalPrefixOf p s"
  shows "length p \<le> length (consumed s)" "parseFloat s \<noteq> NaN"
proof -
  from assms obtain r v u w where
    a: "dropWhile isStrWhiteSpaceChar s = p @ r" "unsignedLiteral u w"
      "p = u \<or> p = CHR ''+'' # u \<or> p = CHR ''-'' # u"
    by (auto simp: literalPrefixOf_def strDecimalLiteral_def)
  from unsigned_start [OF a(2)] obtain c u' where
    c: "u = c # u'" "c \<noteq> CHR ''+''" "c \<noteq> CHR ''-''" by blast
  from a(3) have "length p \<le> length (consumed s) \<and> parseFloat s \<noteq> NaN"
  proof (elim disjE)
    assume "p = u"
    with a(1) c have t: "dropWhile isStrWhiteSpaceChar s = c # (u' @ r)" by simp
    have "c # (u' @ r) = u @ r" using c by simp
    from taken_bound [OF this a(2)] t c \<open>p = u\<close> show ?thesis
      by (simp add: consumed_def parseFloat_def)
  next
    assume p: "p = CHR ''+'' # u"
    with a(1) have t: "dropWhile isStrWhiteSpaceChar s = CHR ''+'' # (u @ r)" by simp
    from taken_bound [OF refl a(2), of r] t p show ?thesis
      by (simp add: consumed_def parseFloat_def)
  next
    assume p: "p = CHR ''-'' # u"
    with a(1) have t: "dropWhile isStrWhiteSpaceChar s = CHR ''-'' # (u @ r)" by simp
    from taken_bound [OF refl a(2), of r] t p show ?thesis
      by (simp add: consumed_def parseFloat_def)
  qed
  then show "length p \<le> length (consumed s)" "parseFloat s \<noteq> NaN" by simp_all
qed

lemma consumed_literal:
  assumes "parseFloat s \<noteq> NaN"
  shows "strDecimalLiteral (consumed s) (parseFloat s)"
    "\<exists>r. dropWhile isStrWhiteSpaceChar s = consumed s @ r"
proof -
  have "strDecimalLiteral (consumed s) (parseFloat s)
        \<and> (\<exists>r. dropWhile isStrWhiteSpaceChar s = consumed s @ r)"
  proof (cases "dropWhile isStrWhiteSpaceChar s")
    case Nil
    with assms show ?thesis by (simp add: parseFloat_def)
  next
    case (Cons c u)
    show ?thesis
    proof (cases "c = CHR ''-'' \<or> c = CHR ''+''")
      case True
      with assms Cons have n: "parseUnsigned u \<noteq> NaN"
        by (auto simp: parseFloat_def)
      from taken_literal [OF n] True Cons show ?thesis
        by (auto simp: consumed_def parseFloat_def strDecimalLiteral_def)
    next
      case False
      with assms Cons have n: "parseUnsigned (c # u) \<noteq> NaN"
        by (auto simp: parseFloat_def)
      from taken_literal [OF n] False Cons show ?thesis
        by (auto simp: consumed_def parseFloat_def strDecimalLiteral_def)
    qed
  qed
  then show "strDecimalLiteral (consumed s) (parseFloat s)"
    "\<exists>r. dropWhile isStrWhiteSpaceChar s = consumed s @ r" by simp_all
qed

lemma exponent_value:
  assumes "exponentPart ex k"
  shows "exponentValue ex = k"
proof (cases "ex = []")
  case True
  with assms show ?thesis by (auto simp: exponentPart_def exponentValue_def)
next
  case False
  with assms obtain c sg es where
    e: "ex = c # sg @ es" "c = CHR ''e'' \<or> c = CHR ''E''" "es \<noteq> []" "list_all isDecimalDigit es"
      "sg = [] \<and> k = int (digitsValue es) \<or> sg = ''+'' \<and> k = int (digitsValue es)
       \<or> sg = ''-'' \<and> k = - int (digitsValue es)"
    by (auto simp: exponentPart_def)
  from e(3) obtain d es' where es: "es = d # es'" by (cases es) auto
  with e(4) have d: "isDecimalDigit d" by simp
  have t: "takeWhile isDecimalDigit es = es"
    using e(4) by (simp add: list_all_iff takeWhile_eq_all_conv)
  from e(5) show ?thesis
  proof (elim disjE conjE)
    assume "sg = []" "k = int (digitsValue es)"
    with e(1,2) digit_plain(2,3) [OF d] show ?thesis
      using t by (auto simp: exponentValue_def es)
  next
    assume "sg = ''+''" "k = int (digitsValue es)"
    with e(1,2) show ?thesis by (auto simp: exponentValue_def t)
  next
    assume "sg = ''-''" "k = - int (digitsValue es)"
    with e(1,2) show ?thesis by (auto simp: exponentValue_def t)
  qed
qed

lemma exponent_head:
  assumes "exponentPart ex k"
  shows "takeWhile isDecimalDigit ex = []" "dropWhile isDecimalDigit ex = ex"
    "ex = [] \<or> hd ex \<noteq> CHR ''.''"
  using assms by (auto simp: exponentPart_def)

lemma decimal_value:
  assumes "decimalLiteral p q"
  shows "parseUnsigned p = roundDouble q"
proof -
  from assms obtain ds pointed fs ex k where
    l: "p = spelled ds pointed fs ex" "list_all isDecimalDigit ds" "list_all isDecimalDigit fs"
      "pointed \<or> fs = []" "ds \<noteq> [] \<or> fs \<noteq> []" "exponentPart ex k"
      "q = scale (of_nat (digitsValue (ds @ fs)) / 10 ^ length fs) k"
    by (auto simp: decimalLiteral_def)
  note eh = exponent_head [OF l(6)]
  have ev: "exponentValue ex = k" by (rule exponent_value [OF l(6)])
  have u: "unsignedLiteral p (roundDouble q)" using assms by (auto simp: unsignedLiteral_def)
  from unsigned_start [OF u] have inf: "take 8 p \<noteq> ''Infinity''"
    using l(1,2,4,5) by (cases ds) (auto simp: spelled_def isDecimalDigit_def)
  show ?thesis
  proof (cases pointed)
    case True
    have ip: "takeWhile isDecimalDigit p = ds" "dropWhile isDecimalDigit p = CHR ''.'' # fs @ ex"
      using run_append [OF l(2), of "CHR ''.'' # fs @ ex"] l(1) True by (simp_all add: spelled_def)
    have fp: "takeWhile isDecimalDigit (fs @ ex) = fs" "dropWhile isDecimalDigit (fs @ ex) = ex"
      using run_append [OF l(3), of ex] eh by simp_all
    from inf l(5,7) ev show ?thesis
      by (auto simp: parseUnsigned_def Let_def ip fp)
  next
    case False
    with l(4,5) have fs: "fs = []" "ds \<noteq> []" by auto
    have ip: "takeWhile isDecimalDigit p = ds" "dropWhile isDecimalDigit p = ex"
      using run_append [OF l(2), of ex] l(1) False eh by (simp_all add: spelled_def)
    from inf fs l(7) ev eh(3) show ?thesis
      by (auto simp: parseUnsigned_def Let_def ip)
  qed
qed

lemma unsigned_value: "unsignedLiteral u w \<Longrightarrow> parseUnsigned u = w"
  by (auto simp: unsignedLiteral_def decimal_value) (simp add: parseUnsigned_def)

lemma literal_value:
  assumes "strDecimalLiteral p v"
  shows "parseFloat p = v"
proof -
  from assms obtain u w where
    a: "unsignedLiteral u w" "p = u \<and> v = w \<or> p = CHR ''+'' # u \<and> v = w \<or> p = CHR ''-'' # u \<and> v = negate w"
    by (auto simp: strDecimalLiteral_def)
  from unsigned_start [OF a(1)] obtain c u' where
    c: "u = c # u'" "c \<noteq> CHR ''+''" "c \<noteq> CHR ''-''" "\<not> isStrWhiteSpaceChar c" by blast
  have w: "\<not> isStrWhiteSpaceChar (CHR ''+'')" "\<not> isStrWhiteSpaceChar (CHR ''-'')"
    by (simp_all add: isStrWhiteSpaceChar_def)
  from a(2) c w unsigned_value [OF a(1)] show ?thesis
    by (auto simp: parseFloat_def)
qed

lemma parseFloat_longest:
  "(parseFloat s \<noteq> NaN \<longleftrightarrow> (\<exists>p. literalPrefixOf p s))
   \<and> (longestLiteralPrefix p s \<and> strDecimalLiteral p v \<longrightarrow> parseFloat s = v)
   \<and> (parseFloat s \<noteq> NaN \<longrightarrow> longestLiteralPrefix (consumed s) s)"
proof -
  have c: "longestLiteralPrefix (consumed s) s" if "parseFloat s \<noteq> NaN"
    using consumed_literal [OF that] consumed_bound(1) [of _ s]
    by (auto simp: longestLiteralPrefix_def literalPrefixOf_def)
  have a: "parseFloat s \<noteq> NaN \<longleftrightarrow> (\<exists>p. literalPrefixOf p s)"
    using c consumed_bound(2) [of _ s] by (auto simp: longestLiteralPrefix_def)
  have b: "parseFloat s = v" if "longestLiteralPrefix p s" "strDecimalLiteral p v"
  proof -
    from that(1) have n: "parseFloat s \<noteq> NaN" using a by (auto simp: longestLiteralPrefix_def)
    from c [OF n] that(1) have "length (consumed s) = length p"
      by (auto simp: longestLiteralPrefix_def intro: antisym)
    moreover from that(1) obtain r where
      "dropWhile isStrWhiteSpaceChar s = p @ r"
      unfolding longestLiteralPrefix_def literalPrefixOf_def by blast
    moreover from consumed_literal(2) [OF n] obtain r' where
      "dropWhile isStrWhiteSpaceChar s = consumed s @ r'" by blast
    ultimately have "consumed s = p" by (metis append_eq_append_conv)
    with consumed_literal(1) [OF n] have "strDecimalLiteral p (parseFloat s)" by simp
    from literal_value [OF this] literal_value [OF that(2)] show ?thesis by simp
  qed
  from a b c show ?thesis by blast
qed

lemmas scan_defs = consumed_def taken_def scanned_def spelled_def expText_def
  isStrWhiteSpaceChar_def isDecimalDigit_def Let_def

text \<open>
  What rounding does to a literal: beyond the largest double it is an infinity, between
  two doubles equally near it is the even one, and below half the least double it is 0.
\<close>

lemma parseFloat_rounds:
  "parseFloat ''1e400'' = PosInfinity"
  "parseFloat ''-1e400'' = NegInfinity"
  "parseFloat ''9007199254740993'' = Finite 9007199254740992"
  "parseFloat ''1e-400'' = Finite 0"
proof -
  have a: "roundDouble (10 ^ 400) = PosInfinity" by (simp add: roundDouble_overflow)
  have b: "roundDouble 9007199254740993 = Finite 9007199254740992"
    by (simp add: roundDouble_at [of 53] roundHalfEven_tie [of _ 4503599627370496] power_int_minus)
  have c: "roundDouble (1 / 10 ^ 400) = Finite 0"
    unfolding roundDouble_def Let_def
    by (simp add: binade_small roundHalfEven_near [of 0] power_int_minus)
  show "parseFloat ''1e400'' = PosInfinity"
    using a by (simp add: parse_defs)
  show "parseFloat ''-1e400'' = NegInfinity"
    using a by (simp add: parse_defs)
  show "parseFloat ''9007199254740993'' = Finite 9007199254740992"
    using b by (simp add: parse_defs)
  show "parseFloat ''1e-400'' = Finite 0"
    using c by (simp add: parse_defs)
qed

lemma big_literal:
  "longestLiteralPrefix ''1e400'' ''1e400abc''" "strDecimalLiteral ''1e400'' PosInfinity"
proof -
  have a: "roundDouble (10 ^ 400) = PosInfinity" by (simp add: roundDouble_overflow)
  have p: "parseFloat ''1e400abc'' = PosInfinity" using a by (simp add: parse_defs)
  have c: "consumed ''1e400abc'' = ''1e400''" by (simp add: scan_defs)
  from parseFloat_longest [of "''1e400abc''"] p c
  show "longestLiteralPrefix ''1e400'' ''1e400abc''" by simp
  from consumed_literal(1) [of "''1e400abc''"] p c
  show "strDecimalLiteral ''1e400'' PosInfinity" by simp
qed

lemma write_float:
  assumes "wellFormed (addressSpace srv)"
    and "(key, node) \<in> set (entries (addressSpace srv))"
    and "nodeClass node = ''Variable''"
    and "accessLevel node = Some ''ReadWrite''"
    and "dataType node = Some ''Float''"
  shows "parseFloat raw = NaN \<longrightarrow>
           writeNode srv key raw now =
             (Returned (failure (ErrorForType ''Invalid float value.'' (Some ''Float''))), srv)"
    and "parseFloat raw \<noteq> NaN \<longrightarrow>
           fst (writeNode srv key raw now) =
             Returned \<lparr>success = True, message = ValueUpdated (browseName node) (JNum (parseFloat raw)),
                       resTimestamp = Some now, resDataType = Some ''Float''\<rparr>
           \<and> fst (readNode (snd (writeNode srv key raw now)) key) =
             Some \<lparr>readValue = Some (JNum (parseFloat raw)), readDataType = Some ''Float'',
                    readAccessLevel = Some ''ReadWrite'', readTimestamp = Some now\<rparr>"
proof -
  have f: "findNode key (addressSpace srv) = FoundNode node"
    using wellFormed_find [OF assms(1,2)] .
  show "parseFloat raw = NaN \<longrightarrow>
           writeNode srv key raw now =
             (Returned (failure (ErrorForType ''Invalid float value.'' (Some ''Float''))), srv)"
    using f assms(3,4,5) by (simp add: writeNode_def convert_def)
  have c: "convert (dataType node) raw = Inr (JNum (parseFloat raw))" if "parseFloat raw \<noteq> NaN"
    using that assms(5) by (simp add: convert_def)
  show "parseFloat raw \<noteq> NaN \<longrightarrow>
           fst (writeNode srv key raw now) =
             Returned \<lparr>success = True, message = ValueUpdated (browseName node) (JNum (parseFloat raw)),
                       resTimestamp = Some now, resDataType = Some ''Float''\<rparr>
           \<and> fst (readNode (snd (writeNode srv key raw now)) key) =
             Some \<lparr>readValue = Some (JNum (parseFloat raw)), readDataType = Some ''Float'',
                    readAccessLevel = Some ''ReadWrite'', readTimestamp = Some now\<rparr>"
    using write_ok [OF assms(1-4) c, of now] assms(5) by simp
qed

text \<open>
  C10, as the code has it. In an address space with unique, plain node ids, a write to a
  ReadWrite Float Variable succeeds exactly when the text, after its leading white space,
  begins with a \<open>StrDecimalLiteral\<close>: an optionally signed decimal literal or an optionally
  signed \<open>Infinity\<close>. Then there is a longest such prefix, and the value stored and read
  back is the value of that prefix, whatever follows it: the double nearest to the number
  a decimal literal denotes, an infinity when that number is beyond the doubles, and an
  infinity for the word. Without such a prefix the write returns the invalid-float failure
  and changes nothing.
\<close>

theorem float_write_prefix:
  assumes "wellFormed (addressSpace srv)"
    and "(key, node) \<in> set (entries (addressSpace srv))"
    and "nodeClass node = ''Variable''"
    and "accessLevel node = Some ''ReadWrite''"
    and "dataType node = Some ''Float''"
  shows "((\<exists>res. fst (writeNode srv key raw now) = Returned res \<and> success res)
            \<longleftrightarrow> (\<exists>p. literalPrefixOf p raw))
       \<and> ((\<exists>p. literalPrefixOf p raw) \<longrightarrow>
            (\<exists>p v. longestLiteralPrefix p raw \<and> strDecimalLiteral p v))
       \<and> (longestLiteralPrefix p raw \<and> strDecimalLiteral p v \<longrightarrow>
            fst (writeNode srv key raw now) =
              Returned \<lparr>success = True, message = ValueUpdated (browseName node) (JNum v),
                        resTimestamp = Some now, resDataType = Some ''Float''\<rparr>
            \<and> fst (readNode (snd (writeNode srv key raw now)) key) =
              Some \<lparr>readValue = Some (JNum v), readDataType = Some ''Float'',
                     readAccessLevel = Some ''ReadWrite'', readTimestamp = Some now\<rparr>)
       \<and> (\<not> (\<exists>p. literalPrefixOf p raw) \<longrightarrow>
            writeNode srv key raw now =
              (Returned (failure (ErrorForType ''Invalid float value.'' (Some ''Float''))), srv))"
proof -
  note w = write_float [OF assms, of raw now]
  note l = parseFloat_longest [of raw]
  have a: "(\<exists>res. fst (writeNode srv key raw now) = Returned res \<and> success res)
            \<longleftrightarrow> parseFloat raw \<noteq> NaN"
    using w by (cases "parseFloat raw = NaN") (auto simp: failure_def)
  have b: "\<exists>p v. longestLiteralPrefix p raw \<and> strDecimalLiteral p v" if "\<exists>p. literalPrefixOf p raw"
  proof -
    from that l have n: "parseFloat raw \<noteq> NaN" by blast
    with l consumed_literal(1) [OF n] show ?thesis by blast
  qed
  have c: "parseFloat raw = v \<and> parseFloat raw \<noteq> NaN"
    if "longestLiteralPrefix p raw" "strDecimalLiteral p v"
    using that parseFloat_longest [of raw p v] by (auto simp: longestLiteralPrefix_def)
  from a b c w l show ?thesis by blast
qed

lemma point_literal:
  assumes "list_all isDecimalDigit ds" "list_all isDecimalDigit fs" "ds \<noteq> []"
  shows "strDecimalLiteral (ds @ CHR ''.'' # fs)
           (roundDouble (of_nat (digitsValue (ds @ fs)) / 10 ^ length fs))"
  using point_decimal [OF assms] by (auto simp: strDecimalLiteral_def unsignedLiteral_def)

theorem float_write_prefix_witness:
  "wellFormed (addressSpace (constructor 1 2 3 4 :: nat server))
   \<and> longestLiteralPrefix ''26.75'' ''26.75abc''
   \<and> strDecimalLiteral ''26.75'' (Finite (107 / 4))
   \<and> fst (readNode (snd (writeNode (constructor 1 2 3 4 :: nat server)
          ''ns=1;s=Temperature'' ''26.75abc'' 9)) ''ns=1;s=Temperature'') =
       Some \<lparr>readValue = Some (JNum (Finite (107 / 4))), readDataType = Some ''Float'',
              readAccessLevel = Some ''ReadWrite'', readTimestamp = Some 9\<rparr>
   \<and> longestLiteralPrefix ''1e400'' ''1e400abc''
   \<and> strDecimalLiteral ''1e400'' PosInfinity
   \<and> fst (readNode (snd (writeNode (constructor 1 2 3 4 :: nat server)
          ''ns=1;s=Temperature'' ''1e400abc'' 9)) ''ns=1;s=Temperature'') =
       Some \<lparr>readValue = Some (JNum PosInfinity), readDataType = Some ''Float'',
              readAccessLevel = Some ''ReadWrite'', readTimestamp = Some 9\<rparr>
   \<and> \<not> (\<exists>p. literalPrefixOf p ''abc'')
   \<and> writeNode (constructor 1 2 3 4 :: nat server) ''ns=1;s=Temperature'' ''abc'' 9 =
       (Returned (failure (ErrorForType ''Invalid float value.'' (Some ''Float''))),
        constructor 1 2 3 4)"
proof -
  let ?srv = "constructor 1 2 3 4 :: nat server"
  have wf: "wellFormed (addressSpace ?srv)"
    by (simp add: constructor_def wellFormed_constructed)
  have m: "(''ns=1;s=Temperature'', temperatureNode 1) \<in> set (entries (addressSpace ?srv))"
    by (simp add: constructor_def temperature_entry)
  have v: "nodeClass (temperatureNode 1) = ''Variable''"
    "accessLevel (temperatureNode 1) = Some ''ReadWrite''"
    "dataType (temperatureNode 1) = Some ''Float''"
    by (simp_all add: temperatureNode_def)
  have lit: "strDecimalLiteral ''26.75'' (Finite (107 / 4))"
    using point_literal [of "''26''" "''75''"]
    by (simp add: isDecimalDigit_def digitsValue_def digitValue_def double_examples)
  have pre: "literalPrefixOf ''26.75'' ''26.75abc''"
    unfolding literalPrefixOf_def
    using lit by (intro exI [of _ "''abc''"] exI [of _ "Finite (107 / 4)"])
      (simp add: isStrWhiteSpaceChar_def)
  have "consumed ''26.75abc'' = ''26.75''" by (simp add: scan_defs)
  with consumed_bound(1) [of _ "''26.75abc''"] pre
  have long: "longestLiteralPrefix ''26.75'' ''26.75abc''"
    by (auto simp: longestLiteralPrefix_def)
  have "parseFloat ''abc'' = NaN" by (simp add: parse_defs)
  with consumed_bound(2) [of _ "''abc''"] have none: "\<not> (\<exists>p. literalPrefixOf p ''abc'')"
    by blast
  note t = float_write_prefix [OF wf m v, where now = 9]
  from t [of "''26.75abc''" "''26.75''" "Finite (107 / 4)"] long lit
  have 1: "fst (readNode (snd (writeNode ?srv ''ns=1;s=Temperature'' ''26.75abc'' 9))
             ''ns=1;s=Temperature'') =
       Some \<lparr>readValue = Some (JNum (Finite (107 / 4))), readDataType = Some ''Float'',
              readAccessLevel = Some ''ReadWrite'', readTimestamp = Some 9\<rparr>"
    by blast
  from t [of "''abc''" "[]" NaN] none
  have 2: "writeNode ?srv ''ns=1;s=Temperature'' ''abc'' 9 =
       (Returned (failure (ErrorForType ''Invalid float value.'' (Some ''Float''))), ?srv)"
    by blast
  from t [of "''1e400abc''" "''1e400''" PosInfinity] big_literal
  have 3: "fst (readNode (snd (writeNode ?srv ''ns=1;s=Temperature'' ''1e400abc'' 9))
             ''ns=1;s=Temperature'') =
       Some \<lparr>readValue = Some (JNum PosInfinity), readDataType = Some ''Float'',
              readAccessLevel = Some ''ReadWrite'', readTimestamp = Some 9\<rparr>"
    by blast
  from wf long lit 1 big_literal 3 none 2 show ?thesis by blast
qed

text \<open>
  C10 as stated fails: the text \<open>Infinity\<close> begins with no decimal number, and the write
  succeeds and stores the number \<open>Infinity\<close>.
\<close>

theorem float_write_infinity:
  "\<not> (\<exists>p r. dropWhile isStrWhiteSpaceChar ''Infinity'' = p @ r \<and> decimalNumberText p)
   \<and> fst (writeNode (constructor 1 2 3 4 :: nat server) ''ns=1;s=Temperature'' ''Infinity'' 9) =
       Returned \<lparr>success = True, message = ValueUpdated ''Temperature'' (JNum PosInfinity),
                 resTimestamp = Some 9, resDataType = Some ''Float''\<rparr>
   \<and> fst (readNode (snd (writeNode (constructor 1 2 3 4 :: nat server)
          ''ns=1;s=Temperature'' ''Infinity'' 9)) ''ns=1;s=Temperature'') =
       Some \<lparr>readValue = Some (JNum PosInfinity), readDataType = Some ''Float'',
              readAccessLevel = Some ''ReadWrite'', readTimestamp = Some 9\<rparr>"
proof -
  let ?srv = "constructor 1 2 3 4 :: nat server"
  have wf: "wellFormed (addressSpace ?srv)"
    by (simp add: constructor_def wellFormed_constructed)
  have m: "(''ns=1;s=Temperature'', temperatureNode 1) \<in> set (entries (addressSpace ?srv))"
    by (simp add: constructor_def temperature_entry)
  have v: "nodeClass (temperatureNode 1) = ''Variable''"
    "accessLevel (temperatureNode 1) = Some ''ReadWrite''"
    "dataType (temperatureNode 1) = Some ''Float''"
    by (simp_all add: temperatureNode_def)
  have pf: "parseFloat ''Infinity'' = PosInfinity" by (simp add: parse_defs)
  have no: "\<not> (\<exists>p r. dropWhile isStrWhiteSpaceChar ''Infinity'' = p @ r \<and> decimalNumberText p)"
  proof
    assume "\<exists>p r. dropWhile isStrWhiteSpaceChar ''Infinity'' = p @ r \<and> decimalNumberText p"
    then obtain p r u q where
      a: "''Infinity'' = p @ r" "decimalLiteral u q"
        "p = u \<or> p = CHR ''+'' # u \<or> p = CHR ''-'' # u"
      by (auto simp: decimalNumberText_def isStrWhiteSpaceChar_def)
    from a(1,3) have "''Infinity'' = u @ r" by auto
    from literal_shape [OF a(2) this] show False by (simp add: isDecimalDigit_def)
  qed
  from write_float(2) [OF wf m v, of "''Infinity''" 9] pf no show ?thesis
    by (simp add: temperatureNode_def)
qed

section \<open>The address space of a running server\<close>

text \<open>
  The node ids of the constructed tree are unique and plain, and stay so whatever calls
  are made: the theorems above speak of every state the server reaches.
\<close>

lemma wellFormed_perform:
  assumes "wellFormed (addressSpace srv)"
  shows "wellFormed (addressSpace (perform srv c))"
proof (cases c)
  case (WriteNode key newValue now)
  have "addressSpace (snd (writeNode srv key newValue now)) = addressSpace srv
        \<or> (\<exists>v. addressSpace (snd (writeNode srv key newValue now)) =
              assignNode key (setValue v now) (addressSpace srv))"
    by (auto simp: writeNode_def Let_def split: found.splits sum.splits member.splits)
  with assms WriteNode show ?thesis by (auto simp: wellFormed_assign)
next
  case (Elapse env)
  have "wellFormed (addressSpace (fold (\<lambda>h s. tick s (env h)) hs s))"
    if "wellFormed (addressSpace s)" for hs s
    using that by (induction hs arbitrary: s) (simp_all add: tick_effect(3))
  with assms Elapse show ?thesis by (simp add: elapse_def)
qed (use assms in simp_all)

lemma registry_perform_plain:
  assumes "wellFormed (addressSpace srv)"
    and "\<forall>k \<in> fst ` set (subscriptions srv). k \<notin> set objectPrototypeKeys"
  shows "\<forall>k \<in> fst ` set (subscriptions (perform srv c)). k \<notin> set objectPrototypeKeys"
proof (cases c)
  case (Subscribe key cb)
  show ?thesis
  proof (cases "success (fst (subscribe srv key cb))")
    case True
    have "fst ` set (AList.update key cb (subscriptions srv)) =
        insert key (fst ` set (subscriptions srv))"
      by (simp add: update_conv' flip: dom_map_of_conv_image_fst)
    with subscribed_plain [OF assms(1) True] assms(2) Subscribe True show ?thesis
      by (simp add: subscribe_effect)
  next
    case False
    with assms(2) Subscribe show ?thesis by (simp add: subscribe_effect)
  qed
next
  case (Unsubscribe key)
  have "fst ` set (AList.delete key (subscriptions srv)) \<subseteq> fst ` set (subscriptions srv)"
    by (auto simp: AList.delete_eq)
  with assms(2) have "\<forall>k \<in> fst ` set (AList.delete key (subscriptions srv)).
      k \<notin> set objectPrototypeKeys" by blast
  with Unsubscribe show ?thesis by (simp add: unsubscribe_registry)
qed (use assms(2) in simp_all)

lemma registry_plain:
  "\<forall>k \<in> fst ` set (subscriptions (performAll (constructor ta tb tc td :: 'cb server) calls)).
     k \<notin> set objectPrototypeKeys"
proof -
  have step: "\<forall>k \<in> fst ` set (subscriptions (foldl perform srv calls)).
      k \<notin> set objectPrototypeKeys"
    if "wellFormed (addressSpace srv)"
      "\<forall>k \<in> fst ` set (subscriptions srv). k \<notin> set objectPrototypeKeys"
    for srv :: "'cb server"
    using that
  proof (induction calls arbitrary: srv)
    case Nil
    then show ?case by simp
  next
    case (Cons c calls)
    from Cons.IH [OF wellFormed_perform [OF Cons.prems(1)]
        registry_perform_plain [OF Cons.prems]]
    show ?case by simp
  qed
  have w: "wellFormed (addressSpace (constructor ta tb tc td :: 'cb server))"
    by (simp add: constructor_def wellFormed_constructed)
  have e: "\<forall>k \<in> fst ` set (subscriptions (constructor ta tb tc td :: 'cb server)).
      k \<notin> set objectPrototypeKeys"
    by (simp add: constructor_def)
  from step [OF w e] show ?thesis by (simp add: performAll_def)
qed

lemma wellFormed_performAll:
  "wellFormed (addressSpace (performAll (constructor ta tb tc td) calls))"
proof -
  have "wellFormed (addressSpace (foldl perform srv calls))"
    if "wellFormed (addressSpace srv)" for srv :: "'a server"
    using that by (induction calls arbitrary: srv) (simp_all add: wellFormed_perform)
  then show ?thesis
    by (simp add: performAll_def constructor_def wellFormed_constructed)
qed

end
